theory Spec2Isabelle
  imports Complex_Main "HOL-Library.Stream"
begin

section \<open>The soccer environment of pygame-soccer\<close>

text \<open>
  A shallow embedding of \<^verbatim>\<open>pygame_soccer/soccer/soccer_environment.py\<close>: the state
  of the agents, the move and overlap resolution of \<^verbatim>\<open>take_action\<close>, the scripted
  opponent and the winning test. Python objects that are mutated in place are passed
  and returned explicitly; exceptions are values of type \<open>error\<close>; the module
  \<^verbatim>\<open>random\<close> is a stream of natural numbers that the calls consume in order.
\<close>

subsection \<open>Data\<close>

type_synonym pos = "int \<times> int"

datatype team_name = PLAYER | COMPUTER

datatype mode = DEFENSIVE | OFFENSIVE

datatype action = MOVE_RIGHT | MOVE_UP | MOVE_LEFT | MOVE_DOWN | STAND

datatype strategic_mode = APPROACH | AVOID | INTERCEPT

text \<open>
  The exceptions the source raises, by their Python names. \<open>ValueError\<close> is what the
  specification calls InvalidArgument, \<open>KeyError\<close> what it calls UnknownKey. Team names,
  actions and modes are closed datatypes here, so the \<open>KeyError\<close> branches for an
  unknown team name, action or strategic mode have no input that reaches them.
\<close>

datatype error = ValueError | KeyError | TypeError | IndexError

definition team_names :: "team_name list" where
  "team_names = [PLAYER, COMPUTER]"

definition modes :: "mode list" where
  "modes = [DEFENSIVE, OFFENSIVE]"

definition actions :: "action list" where
  "actions = [MOVE_RIGHT, MOVE_UP, MOVE_LEFT, MOVE_DOWN, STAND]"

text \<open>
  One entry of \<^verbatim>\<open>SoccerState.agent_list\<close>: a dictionary with the keys pos, ball, mode
  and action. \<open>None\<close> is Python's \<^verbatim>\<open>None\<close>, which \<^verbatim>\<open>reset\<close> stores before
  \<^verbatim>\<open>randomize\<close> runs and which stays the mode of the player's agents.
\<close>

record agent =
  pos :: "pos option"
  ball :: bool
  mode :: "mode option"
  action :: "action option"

record state =
  agent_list :: "agent list"
  time_step :: int

record options =
  map_path :: string
  team_size :: nat

text \<open>
  \<^verbatim>\<open>SoccerMapData\<close>: the tile positions read from the map file. The loader is not part
  of the sources; the two dictionaries keyed by team name are total functions here.
\<close>

record map_data =
  spawn :: "team_name \<Rightarrow> pos list"
  goals :: "team_name \<Rightarrow> pos list"
  walkable :: "pos list"

text \<open>The fields of \<^verbatim>\<open>SoccerEnvironment\<close> that the state transition reads.\<close>

record env =
  options :: options
  map_data :: map_data

record observation =
  obs_state :: "state option"
  obs_action :: "action list option"
  obs_reward :: real
  obs_next_state :: "state option"

subsection \<open>Options\<close>

text \<open>
  \<^verbatim>\<open>SoccerEnvironmentOptions.__init__(map_path, team_size)\<close>. The first argument of the
  model is the path that \<^verbatim>\<open>file_util.get_resource_path\<close> returns for the built-in map;
  an absent or empty \<^verbatim>\<open>map_path\<close> is falsy and selects it. The team size is a Python
  integer; a size that passes the check is 1 or 2 and is stored as a natural number.
\<close>

definition SoccerEnvironmentOptions_init :: "string \<Rightarrow> string option \<Rightarrow> int \<Rightarrow> error + options" where
  "SoccerEnvironmentOptions_init resource_path mp ts =
     (let path = (case mp of None \<Rightarrow> resource_path
                  | Some p \<Rightarrow> if p = [] then resource_path else p)
      in if \<not> (ts \<ge> 1 \<and> ts \<le> 2) then Inl ValueError
         else Inr \<lparr>map_path = path, team_size = nat ts\<rparr>)"

definition get_agent_size :: "options \<Rightarrow> nat" where
  "get_agent_size opts = 2 * team_size opts"

subsection \<open>The state and its accessors\<close>

text \<open>
  The accessors index \<^verbatim>\<open>agent_list\<close>. Python raises IndexError outside the list;
  \<^verbatim>\<open>reset\<close> allocates \<open>get_agent_size\<close> entries and nothing resizes the list, and the
  theorems below speak of indices inside it.
\<close>

definition get_agent_pos :: "state \<Rightarrow> nat \<Rightarrow> pos option" where
  "get_agent_pos s i = pos (agent_list s ! i)"

definition set_agent_pos :: "state \<Rightarrow> nat \<Rightarrow> pos option \<Rightarrow> state" where
  "set_agent_pos s i p = s\<lparr>agent_list := (agent_list s)[i := (agent_list s ! i)\<lparr>pos := p\<rparr>]\<rparr>"

definition get_agent_ball :: "state \<Rightarrow> nat \<Rightarrow> bool" where
  "get_agent_ball s i = ball (agent_list s ! i)"

definition set_agent_ball :: "state \<Rightarrow> nat \<Rightarrow> bool \<Rightarrow> state" where
  "set_agent_ball s i b = s\<lparr>agent_list := (agent_list s)[i := (agent_list s ! i)\<lparr>ball := b\<rparr>]\<rparr>"

definition get_agent_mode :: "state \<Rightarrow> nat \<Rightarrow> mode option" where
  "get_agent_mode s i = mode (agent_list s ! i)"

definition set_agent_mode :: "state \<Rightarrow> nat \<Rightarrow> mode option \<Rightarrow> state" where
  "set_agent_mode s i m = s\<lparr>agent_list := (agent_list s)[i := (agent_list s ! i)\<lparr>mode := m\<rparr>]\<rparr>"

definition get_agent_action :: "state \<Rightarrow> nat \<Rightarrow> action option" where
  "get_agent_action s i = action (agent_list s ! i)"

definition set_agent_action :: "state \<Rightarrow> nat \<Rightarrow> action option \<Rightarrow> state" where
  "set_agent_action s i a = s\<lparr>agent_list := (agent_list s)[i := (agent_list s ! i)\<lparr>action := a\<rparr>]\<rparr>"

text \<open>\<^verbatim>\<open>SoccerEnvironment.get_agent_index\<close>: the player's group is 0, the computer's 1.\<close>

definition group_index :: "team_name \<Rightarrow> nat" where
  "group_index tn = (case tn of PLAYER \<Rightarrow> 0 | COMPUTER \<Rightarrow> 1)"

definition get_agent_index :: "options \<Rightarrow> team_name \<Rightarrow> nat \<Rightarrow> nat" where
  "get_agent_index opts tn k = team_size opts * group_index tn + k"

definition get_team_name :: "options \<Rightarrow> nat \<Rightarrow> team_name" where
  "get_team_name opts i = (if i < team_size opts then PLAYER else COMPUTER)"

text \<open>
  The double loop \<^verbatim>\<open>for team_name in team_names: for team_agent_index in
  range(team_size)\<close>, which several methods share, as the list of its iterations.
\<close>

definition team_agents :: "options \<Rightarrow> (team_name \<times> nat) list" where
  "team_agents opts = concat (map (\<lambda>tn. map (\<lambda>k. (tn, k)) [0..<team_size opts]) team_names)"

definition switch_ball :: "state \<Rightarrow> nat \<Rightarrow> nat \<Rightarrow> state" where
  "switch_ball s i j =
     (let agent_ball = get_agent_ball s i;
          s1 = set_agent_ball s i (\<not> agent_ball)
      in set_agent_ball s1 j agent_ball)"

text \<open>
  \<^verbatim>\<open>is_agent_win\<close>: the goal list consulted is the one the map files under the agent's
  own team name. A position that is still \<^verbatim>\<open>None\<close> is in no list.
\<close>

definition is_agent_win :: "env \<Rightarrow> state \<Rightarrow> nat \<Rightarrow> bool" where
  "is_agent_win e s i =
     (let agent_pos = get_agent_pos s i;
          has_ball = get_agent_ball s i
      in if \<not> has_ball then False
         else (let tn = get_team_name (options e) i
               in case agent_pos of None \<Rightarrow> False
                  | Some p \<Rightarrow> p \<in> set (goals (map_data e) tn)))"

definition is_team_win :: "env \<Rightarrow> state \<Rightarrow> team_name \<Rightarrow> bool" where
  "is_team_win e s tn =
     list_ex (\<lambda>k. is_agent_win e s (get_agent_index (options e) tn k))
       [0..<team_size (options e)]"

definition is_terminal :: "env \<Rightarrow> state \<Rightarrow> bool" where
  "is_terminal e s =
     (if time_step s \<ge> 100 then True
      else list_ex (is_agent_win e s) [0..<get_agent_size (options e)])"

text \<open>
  The dictionary that \<^verbatim>\<open>get_pos_status\<close> and \<^verbatim>\<open>get_ball_possession\<close> return. Both
  methods end in \<^verbatim>\<open>return None\<close> when the loop finds no agent; neither has a
  \<^verbatim>\<open>raise\<close>.
\<close>

record agent_ref =
  ref_team_name :: team_name
  ref_team_agent_index :: nat
  ref_agent_index :: nat

definition make_ref :: "options \<Rightarrow> team_name \<times> nat \<Rightarrow> agent_ref" where
  "make_ref opts tk =
     \<lparr>ref_team_name = fst tk, ref_team_agent_index = snd tk,
      ref_agent_index = get_agent_index opts (fst tk) (snd tk)\<rparr>"

definition get_pos_status :: "options \<Rightarrow> state \<Rightarrow> pos option \<Rightarrow> agent_ref option" where
  "get_pos_status opts s p =
     map_option (make_ref opts)
       (find (\<lambda>tk. p = get_agent_pos s (get_agent_index opts (fst tk) (snd tk)))
          (team_agents opts))"

definition get_ball_possession :: "options \<Rightarrow> state \<Rightarrow> agent_ref option" where
  "get_ball_possession opts s =
     map_option (make_ref opts)
       (find (\<lambda>tk. get_agent_ball s (get_agent_index opts (fst tk) (snd tk)))
          (team_agents opts))"

definition increase_time_step :: "state \<Rightarrow> state" where
  "increase_time_step s = s\<lparr>time_step := time_step s + 1\<rparr>"

subsection \<open>Randomness\<close>

text \<open>
  The generator of the module \<^verbatim>\<open>random\<close> is a stream of draws; each call takes the
  head and leaves the tail. \<^verbatim>\<open>random.choice\<close> maps a draw to an index of the
  sequence and raises IndexError on an empty one; \<^verbatim>\<open>random.randrange\<close> raises
  ValueError on an empty range; \<^verbatim>\<open>random.sample(xs, k)\<close> picks \<open>k\<close> elements one
  after the other without replacement. Every element, and every order, comes out for
  some stream; the distribution of the draws is not part of the model.
\<close>

type_synonym rand = "nat stream"

definition random_choice :: "'a list \<Rightarrow> rand \<Rightarrow> (error + 'a) \<times> rand" where
  "random_choice xs rnd =
     (if xs = [] then (Inl IndexError, rnd)
      else (Inr (xs ! (shd rnd mod length xs)), stl rnd))"

definition random_randrange :: "nat \<Rightarrow> rand \<Rightarrow> (error + nat) \<times> rand" where
  "random_randrange n rnd =
     (if n = 0 then (Inl ValueError, rnd) else (Inr (shd rnd mod n), stl rnd))"

primrec sample_from :: "nat \<Rightarrow> 'a list \<Rightarrow> rand \<Rightarrow> 'a list \<times> rand" where
  "sample_from 0 xs rnd = ([], rnd)"
| "sample_from (Suc k) xs rnd =
     (if xs = [] then ([], rnd)
      else (let i = shd rnd mod length xs;
                r = sample_from k (take i xs @ drop (Suc i) xs) (stl rnd)
            in (xs ! i # fst r, snd r)))"

definition random_sample :: "'a list \<Rightarrow> nat \<Rightarrow> rand \<Rightarrow> (error + 'a list) \<times> rand" where
  "random_sample xs k rnd =
     (if length xs < k then (Inl ValueError, rnd)
      else (Inr (fst (sample_from k xs rnd)), snd (sample_from k xs rnd)))"

subsection \<open>Geometry\<close>

fun get_moved_pos :: "pos \<Rightarrow> action \<Rightarrow> pos" where
  "get_moved_pos (x, y) MOVE_RIGHT = (x + 1, y)"
| "get_moved_pos (x, y) MOVE_UP = (x, y - 1)"
| "get_moved_pos (x, y) MOVE_LEFT = (x - 1, y)"
| "get_moved_pos (x, y) MOVE_DOWN = (x, y + 1)"
| "get_moved_pos (x, y) STAND = (x, y)"

text \<open>
  \<^verbatim>\<open>np.linalg.norm\<close> of the difference vector. The floating-point result is taken as
  the real number it approximates: the source only compares distances with each other
  and with 1.0, and on tile coordinates these comparisons agree with the exact ones.
\<close>

definition get_pos_distance :: "pos \<Rightarrow> pos \<Rightarrow> real" where
  "get_pos_distance pos1 pos2 =
     sqrt (real_of_int ((fst pos2 - fst pos1)\<^sup>2 + (snd pos2 - snd pos1)\<^sup>2))"

text \<open>\<^verbatim>\<open>np.argmin\<close> and \<^verbatim>\<open>np.argmax\<close>: the first index of an extreme value; ValueError on
  an empty sequence.\<close>

fun argmin_scan :: "real list \<Rightarrow> nat \<Rightarrow> nat \<Rightarrow> real \<Rightarrow> nat" where
  "argmin_scan [] i best bv = best"
| "argmin_scan (y # ys) i best bv =
     (if y < bv then argmin_scan ys (Suc i) i y else argmin_scan ys (Suc i) best bv)"

fun argmax_scan :: "real list \<Rightarrow> nat \<Rightarrow> nat \<Rightarrow> real \<Rightarrow> nat" where
  "argmax_scan [] i best bv = best"
| "argmax_scan (y # ys) i best bv =
     (if y > bv then argmax_scan ys (Suc i) i y else argmax_scan ys (Suc i) best bv)"

definition np_argmin :: "real list \<Rightarrow> error + nat" where
  "np_argmin ds = (case ds of [] \<Rightarrow> Inl ValueError | d # rest \<Rightarrow> Inr (argmin_scan rest 1 0 d))"

definition np_argmax :: "real list \<Rightarrow> error + nat" where
  "np_argmax ds = (case ds of [] \<Rightarrow> Inl ValueError | d # rest \<Rightarrow> Inr (argmax_scan rest 1 0 d))"

subsection \<open>The scripted opponent\<close>

text \<open>
  The loop of \<^verbatim>\<open>_get_strategic_action\<close> over the shuffled actions, with the incumbent
  \<open>(best_action, best_dist)\<close> as its accumulator.
\<close>

fun strategic_scan ::
  "pos list \<Rightarrow> pos \<Rightarrow> pos \<Rightarrow> strategic_mode \<Rightarrow> action list \<Rightarrow> action \<times> real \<Rightarrow> action \<times> real" where
  "strategic_scan wk source_pos target_pos m [] best = best"
| "strategic_scan wk source_pos target_pos m (a # rest) best =
     (let moved_pos = get_moved_pos source_pos a
      in if moved_pos \<notin> set wk then strategic_scan wk source_pos target_pos m rest best
         else (let moved_dist = get_pos_distance moved_pos target_pos;
                   best_dist = snd best
               in strategic_scan wk source_pos target_pos m rest
                    (case m of
                       APPROACH \<Rightarrow> if moved_dist < best_dist then (a, moved_dist) else best
                     | AVOID \<Rightarrow> if moved_dist > best_dist then (a, moved_dist) else best
                     | INTERCEPT \<Rightarrow>
                         if moved_dist < best_dist \<and> moved_dist \<ge> 1 then (a, moved_dist)
                         else best)))"

definition get_strategic_action ::
  "map_data \<Rightarrow> pos \<Rightarrow> pos \<Rightarrow> strategic_mode \<Rightarrow> rand \<Rightarrow> (error + action) \<times> rand" where
  "get_strategic_action md source_pos target_pos m rnd =
     (let orig_dist = get_pos_distance source_pos target_pos
      in case random_choice actions rnd of
           (Inl err, rnd1) \<Rightarrow> (Inl err, rnd1)
         | (Inr best_action, rnd1) \<Rightarrow>
             (case random_sample actions (length actions) rnd1 of
                (Inl err, rnd2) \<Rightarrow> (Inl err, rnd2)
              | (Inr shuffled_actions, rnd2) \<Rightarrow>
                  (Inr (fst (strategic_scan (walkable md) source_pos target_pos m
                               shuffled_actions (best_action, orig_dist))), rnd2)))"

text \<open>
  \<^verbatim>\<open>_get_nearest_player_index\<close>: the accumulator is \<open>(nearest_agent_index,
  nearest_dist)\<close>, \<open>None\<close> before the first player. Subtracting the coordinates of a
  position that is \<^verbatim>\<open>None\<close> raises TypeError.
\<close>

fun nearest_scan ::
  "options \<Rightarrow> state \<Rightarrow> pos option \<Rightarrow> nat list \<Rightarrow> (nat \<times> real) option \<Rightarrow> error + (nat \<times> real) option" where
  "nearest_scan opts s computer_pos [] acc = Inr acc"
| "nearest_scan opts s computer_pos (k # ks) acc =
     (let agent_index = get_agent_index opts PLAYER k;
          player_pos = get_agent_pos s agent_index
      in case computer_pos of None \<Rightarrow> Inl TypeError
         | Some c \<Rightarrow>
             (case player_pos of None \<Rightarrow> Inl TypeError
              | Some p \<Rightarrow>
                  (let dist = get_pos_distance c p
                   in if (case acc of None \<Rightarrow> True | Some near \<Rightarrow> dist < snd near)
                      then nearest_scan opts s computer_pos ks (Some (agent_index, dist))
                      else nearest_scan opts s computer_pos ks acc)))"

definition get_nearest_player_index :: "options \<Rightarrow> state \<Rightarrow> nat \<Rightarrow> error + nat option" where
  "get_nearest_player_index opts s computer_agent_index =
     (let agent_index = get_agent_index opts COMPUTER computer_agent_index;
          computer_pos = get_agent_pos s agent_index
      in case nearest_scan opts s computer_pos [0..<team_size opts] None of
           Inl err \<Rightarrow> Inl err
         | Inr acc \<Rightarrow> Inr (map_option fst acc))"

text \<open>Subscripting the \<^verbatim>\<open>None\<close> that \<^verbatim>\<open>get_ball_possession\<close> returns raises TypeError.\<close>

definition get_defensive_agent_index :: "options \<Rightarrow> state \<Rightarrow> nat \<Rightarrow> error + nat option" where
  "get_defensive_agent_index opts s computer_agent_index =
     (case get_ball_possession opts s of
        None \<Rightarrow> Inl TypeError
      | Some ball_possession \<Rightarrow>
          if ref_team_name ball_possession = PLAYER
          then Inr (Some (ref_agent_index ball_possession))
          else get_nearest_player_index opts s computer_agent_index)"

definition goal_distances :: "pos list \<Rightarrow> pos option \<Rightarrow> error + real list" where
  "goal_distances gs p =
     (case p of
        None \<Rightarrow> if gs = [] then Inr [] else Inl TypeError
      | Some q \<Rightarrow> Inr (map (\<lambda>goal_pos. get_pos_distance goal_pos q) gs))"

text \<open>The target position and the strategic mode that \<^verbatim>\<open>_get_computer_action\<close> derives
  from the agent's mode and ball.\<close>

definition computer_target ::
  "map_data \<Rightarrow> mode option \<Rightarrow> bool \<Rightarrow> pos option \<Rightarrow> pos option \<Rightarrow> error + (pos option \<times> strategic_mode)" where
  "computer_target md computer_mode computer_ball nearest_player_pos defensive_target_agent_pos =
     (case computer_mode of
        Some DEFENSIVE \<Rightarrow>
          if computer_ball then Inr (nearest_player_pos, AVOID)
          else (case goal_distances (goals md PLAYER) defensive_target_agent_pos of
                  Inl err \<Rightarrow> Inl err
                | Inr distances \<Rightarrow>
                    (case np_argmin distances of
                       Inl err \<Rightarrow> Inl err
                     | Inr min_distance_index \<Rightarrow>
                         Inr (Some (goals md PLAYER ! min_distance_index), APPROACH)))
      | Some OFFENSIVE \<Rightarrow>
          if computer_ball
          then (case goal_distances (goals md COMPUTER) nearest_player_pos of
                  Inl err \<Rightarrow> Inl err
                | Inr distances \<Rightarrow>
                    (case np_argmax distances of
                       Inl err \<Rightarrow> Inl err
                     | Inr min_distance_index \<Rightarrow>
                         Inr (Some (goals md COMPUTER ! min_distance_index), APPROACH)))
          else Inr (defensive_target_agent_pos, INTERCEPT)
      | None \<Rightarrow> Inl KeyError)"

definition get_computer_action :: "env \<Rightarrow> state \<Rightarrow> nat \<Rightarrow> rand \<Rightarrow> (error + action) \<times> rand" where
  "get_computer_action e s computer_agent_index rnd =
     (let agent_index = get_agent_index (options e) COMPUTER computer_agent_index;
          computer_ball = get_agent_ball s agent_index;
          computer_mode = get_agent_mode s agent_index
      in case get_nearest_player_index (options e) s computer_agent_index of
           Inl err \<Rightarrow> (Inl err, rnd)
         | Inr None \<Rightarrow> (Inl TypeError, rnd)
         | Inr (Some nearest_player_index) \<Rightarrow>
             (let nearest_player_pos = get_agent_pos s nearest_player_index
              in case get_defensive_agent_index (options e) s computer_agent_index of
                   Inl err \<Rightarrow> (Inl err, rnd)
                 | Inr None \<Rightarrow> (Inl TypeError, rnd)
                 | Inr (Some defensive_target_agent_index) \<Rightarrow>
                     (let defensive_target_agent_pos = get_agent_pos s defensive_target_agent_index;
                          computer_pos = get_agent_pos s agent_index
                      in case computer_target (map_data e) computer_mode computer_ball
                                nearest_player_pos defensive_target_agent_pos of
                           Inl err \<Rightarrow> (Inl err, rnd)
                         | Inr (target_pos, strategic_mode) \<Rightarrow>
                             (case computer_pos of
                                None \<Rightarrow> (Inl TypeError, rnd)
                              | Some source \<Rightarrow>
                                  (case target_pos of
                                     None \<Rightarrow> (Inl TypeError, rnd)
                                   | Some target \<Rightarrow>
                                       get_strategic_action (map_data e) source target
                                         strategic_mode rnd)))))"

subsection \<open>One step: intended positions\<close>

text \<open>
  The argument of \<^verbatim>\<open>take_action\<close> is one action or a list of actions.
  \<^verbatim>\<open>_get_wrapped_action\<close> wraps a single action when the team size is at most 1 and
  then compares lengths. For a single action and a larger team, \<^verbatim>\<open>len\<close> is the
  length of the action's name (5, 7, 9 or 10 characters), which is no team size that
  \<open>SoccerEnvironmentOptions_init\<close> accepts, so the comparison raises ValueError.
\<close>

datatype action_arg = Single action | Listed "action list"

definition get_wrapped_action :: "options \<Rightarrow> action_arg \<Rightarrow> error + action list" where
  "get_wrapped_action opts a =
     (case a of
        Single x \<Rightarrow>
          if team_size opts \<le> 1
          then (if length [x] \<noteq> team_size opts then Inl ValueError else Inr [x])
          else Inl ValueError
      | Listed xs \<Rightarrow> if length xs \<noteq> team_size opts then Inl ValueError else Inr xs)"

text \<open>
  \<^verbatim>\<open>_get_intended_pos\<close>. The dictionary \<^verbatim>\<open>intended_pos\<close> receives the keys
  \<open>0, 1, \<dots>\<close> in this order, one per iteration, and is the list of its values here:
  the entry at index \<open>i\<close> belongs to agent \<open>i\<close>. The state changes on the way (the
  action of each agent is stored before the next agent is looked at), so the function
  returns the state it has reached, also when it raises.
\<close>

fun intended_from ::
  "env \<Rightarrow> action list \<Rightarrow> (team_name \<times> nat) list \<Rightarrow> pos option list \<Rightarrow> state \<Rightarrow> rand
     \<Rightarrow> (error + pos option list) \<times> state \<times> rand" where
  "intended_from e acts [] intended_pos s rnd = (Inr intended_pos, s, rnd)"
| "intended_from e acts (tk # rest) intended_pos s rnd =
     (let agent_index = get_agent_index (options e) (fst tk) (snd tk);
          p = get_agent_pos s agent_index;
          r = (case fst tk of
                 PLAYER \<Rightarrow> (if snd tk < length acts then Inr (acts ! snd tk) else Inl IndexError, rnd)
               | COMPUTER \<Rightarrow> get_computer_action e s (snd tk) rnd)
      in case fst r of
           Inl err \<Rightarrow> (Inl err, s, snd r)
         | Inr agent_action \<Rightarrow>
             (let s1 = set_agent_action s agent_index (Some agent_action)
              in case p of
                   None \<Rightarrow> (Inl TypeError, s1, snd r)
                 | Some q \<Rightarrow>
                     (let moved_pos = get_moved_pos q agent_action
                      in intended_from e acts rest
                           (intended_pos @
                              [if moved_pos \<in> set (walkable (map_data e)) then Some moved_pos
                               else Some q])
                           s1 (snd r))))"

definition get_intended_pos ::
  "env \<Rightarrow> action list \<Rightarrow> state \<Rightarrow> rand \<Rightarrow> (error + pos option list) \<times> state \<times> rand" where
  "get_intended_pos e acts s rnd = intended_from e acts (team_agents (options e)) [] s rnd"

subsection \<open>One step: overlap resolution\<close>

text \<open>
  \<^verbatim>\<open>_get_overlapping_pos_to_agent\<close>. The dictionary from tiles to lists of agent
  indices is an association list in insertion order: \<open>add_agent\<close> appends the agent to
  the list of a tile that is already a key and adds a new key at the end otherwise.
  The tile an agent claims is its intended position if that is walkable and its
  current position otherwise; \<^verbatim>\<open>tuple(None)\<close> raises TypeError.
\<close>

fun add_agent :: "pos \<Rightarrow> nat \<Rightarrow> (pos \<times> nat list) list \<Rightarrow> (pos \<times> nat list) list" where
  "add_agent p i [] = [(p, [i])]"
| "add_agent p i (g # gs) =
     (if fst g = p then (fst g, snd g @ [i]) # gs else g # add_agent p i gs)"

definition claimed_pos :: "env \<Rightarrow> state \<Rightarrow> nat \<Rightarrow> pos option \<Rightarrow> pos option" where
  "claimed_pos e s agent_index p =
     (case p of
        None \<Rightarrow> get_agent_pos s agent_index
      | Some q \<Rightarrow> if q \<in> set (walkable (map_data e)) then Some q
                  else get_agent_pos s agent_index)"

fun overlapping_from ::
  "env \<Rightarrow> state \<Rightarrow> nat \<Rightarrow> pos option list \<Rightarrow> (pos \<times> nat list) list
     \<Rightarrow> error + (pos \<times> nat list) list" where
  "overlapping_from e s i [] groups = Inr groups"
| "overlapping_from e s i (p # ps) groups =
     (case claimed_pos e s i p of
        None \<Rightarrow> Inl TypeError
      | Some pos_tuple \<Rightarrow> overlapping_from e s (Suc i) ps (add_agent pos_tuple i groups))"

definition get_overlapping_pos_to_agent ::
  "env \<Rightarrow> state \<Rightarrow> pos option list \<Rightarrow> error + (pos \<times> nat list) list" where
  "get_overlapping_pos_to_agent e s intended_pos = overlapping_from e s 0 intended_pos []"

text \<open>
  \<^verbatim>\<open>_update_ball_possession\<close>: the loop leaves in \<^verbatim>\<open>has_ball_agent_index\<close> the last
  agent of the list that has the ball and collects the others.
\<close>

definition update_ball_possession ::
  "state \<Rightarrow> nat list \<Rightarrow> rand \<Rightarrow> (error + bool) \<times> state \<times> rand" where
  "update_ball_possession s agent_index_list rnd =
     (let holders = filter (get_agent_ball s) agent_index_list;
          no_ball_agent_list = filter (\<lambda>i. \<not> get_agent_ball s i) agent_index_list
      in if holders = [] then (Inr False, s, rnd)
         else (case random_choice no_ball_agent_list rnd of
                 (Inl err, rnd1) \<Rightarrow> (Inl err, s, rnd1)
               | (Inr switch_agent_index, rnd1) \<Rightarrow>
                   (Inr True, switch_ball s (last holders) switch_agent_index, rnd1)))"

text \<open>The assignments \<^verbatim>\<open>intended_pos[agent_index] = get_agent_pos(agent_index)\<close> for
  the agents of one list.\<close>

fun use_old_positions :: "state \<Rightarrow> nat list \<Rightarrow> pos option list \<Rightarrow> pos option list" where
  "use_old_positions s [] intended_pos = intended_pos"
| "use_old_positions s (i # rest) intended_pos =
     use_old_positions s rest (intended_pos[i := get_agent_pos s i])"

text \<open>
  The \<^verbatim>\<open>for\<close> loop over the items of the overlap dictionary, inside one pass of the
  \<^verbatim>\<open>while\<close> loop. Its variables are the intended positions, \<^verbatim>\<open>has_switched\<close> and
  \<^verbatim>\<open>detecting_overlap\<close>.
\<close>

fun resolve_groups ::
  "(pos \<times> nat list) list \<Rightarrow> pos option list \<Rightarrow> bool \<Rightarrow> bool \<Rightarrow> state \<Rightarrow> rand
     \<Rightarrow> (error + pos option list \<times> bool \<times> bool) \<times> state \<times> rand" where
  "resolve_groups [] intended_pos has_switched detecting_overlap s rnd =
     (Inr (intended_pos, has_switched, detecting_overlap), s, rnd)"
| "resolve_groups (g # gs) intended_pos has_switched detecting_overlap s rnd =
     (if length (snd g) > 1
      then (let r = (if \<not> has_switched then update_ball_possession s (snd g) rnd
                     else (Inr False, s, rnd))
            in case fst r of
                 Inl err \<Rightarrow> (Inl err, snd r)
               | Inr switch \<Rightarrow>
                   resolve_groups gs
                     (use_old_positions (fst (snd r)) (snd g) intended_pos)
                     (has_switched \<or> switch) True (fst (snd r)) (snd (snd r)))
      else resolve_groups gs intended_pos has_switched detecting_overlap s rnd)"

text \<open>
  The \<^verbatim>\<open>while detecting_overlap\<close> loop. It need not terminate on every state, so the
  model counts the passes: \<open>detect_overlap n\<close> runs at most \<open>n\<close> passes and is \<open>None\<close>
  when the loop has not come to its end within them.
\<close>

fun detect_overlap ::
  "nat \<Rightarrow> env \<Rightarrow> pos option list \<Rightarrow> bool \<Rightarrow> state \<Rightarrow> rand
     \<Rightarrow> ((error + pos option list) \<times> state \<times> rand) option" where
  "detect_overlap 0 e intended_pos has_switched s rnd = None"
| "detect_overlap (Suc n) e intended_pos has_switched s rnd =
     (case get_overlapping_pos_to_agent e s intended_pos of
        Inl err \<Rightarrow> Some (Inl err, s, rnd)
      | Inr overlapping_pos_to_agent \<Rightarrow>
          (let r = resolve_groups overlapping_pos_to_agent intended_pos has_switched False s rnd
           in case fst r of
                Inl err \<Rightarrow> Some (Inl err, snd r)
              | Inr v \<Rightarrow>
                  if snd (snd v) then detect_overlap n e (fst v) (fst (snd v)) (fst (snd r)) (snd (snd r))
                  else Some (Inr (fst v), snd r)))"

text \<open>The final loop of \<^verbatim>\<open>_update_agent_pos\<close>, which stores the positions.\<close>

fun commit_from :: "nat \<Rightarrow> pos option list \<Rightarrow> state \<Rightarrow> state" where
  "commit_from i [] s = s"
| "commit_from i (p # ps) s = commit_from (Suc i) ps (set_agent_pos s i p)"

definition update_agent_pos ::
  "nat \<Rightarrow> env \<Rightarrow> pos option list \<Rightarrow> state \<Rightarrow> rand \<Rightarrow> ((error + unit) \<times> state \<times> rand) option" where
  "update_agent_pos n e intended_pos s rnd =
     (case detect_overlap n e intended_pos False s rnd of
        None \<Rightarrow> None
      | Some r \<Rightarrow>
          (case fst r of
             Inl err \<Rightarrow> Some (Inl err, snd r)
           | Inr final_pos \<Rightarrow> Some (Inr (), commit_from 0 final_pos (fst (snd r)), snd (snd r))))"

subsection \<open>One step: reward and \<^verbatim>\<open>take_action\<close>\<close>

definition get_reward :: "env \<Rightarrow> state \<Rightarrow> real" where
  "get_reward e s =
     (if is_team_win e s PLAYER then 1
      else if is_team_win e s COMPUTER then -1
      else 0)"

text \<open>
  \<^verbatim>\<open>take_action\<close>. The first argument bounds the passes of the overlap loop; the result
  is \<open>None\<close> when the loop does not end within them, and otherwise the observation or
  the exception together with the state the call leaves behind.
\<close>

definition take_action ::
  "nat \<Rightarrow> env \<Rightarrow> action_arg \<Rightarrow> state \<Rightarrow> rand \<Rightarrow> ((error + observation) \<times> state) option" where
  "take_action n e a s rnd =
     (case get_wrapped_action (options e) a of
        Inl err \<Rightarrow> Some (Inl err, s)
      | Inr acts \<Rightarrow>
          (let r = get_intended_pos e acts s rnd
           in case fst r of
                Inl err \<Rightarrow> Some (Inl err, fst (snd r))
              | Inr intended_pos \<Rightarrow>
                  (case update_agent_pos n e intended_pos (fst (snd r)) (snd (snd r)) of
                     None \<Rightarrow> None
                   | Some u \<Rightarrow>
                       (case fst u of
                          Inl err \<Rightarrow> Some (Inl err, fst (snd u))
                        | Inr _ \<Rightarrow>
                            (let s1 = increase_time_step (fst (snd u));
                                 reward = get_reward e s1
                             in Some (Inr \<lparr>obs_state = None, obs_action = Some acts,
                                           obs_reward = reward, obs_next_state = Some s1\<rparr>,
                                      s1))))))"

subsection \<open>Reset\<close>

text \<open>
  The \<^verbatim>\<open>while not found_pos\<close> loop of \<^verbatim>\<open>randomize\<close> for one agent. It ends when a draw
  hits a free spawn tile, which no bound on the draws guarantees; \<open>find_pos n\<close> makes
  at most \<open>n\<close> draws and is \<open>None\<close> when none of them was free.
\<close>

fun find_pos ::
  "nat \<Rightarrow> env \<Rightarrow> team_name \<Rightarrow> nat \<Rightarrow> state \<Rightarrow> rand \<Rightarrow> ((error + unit) \<times> state \<times> rand) option" where
  "find_pos 0 e tn agent_index s rnd = None"
| "find_pos (Suc n) e tn agent_index s rnd =
     (case random_choice (spawn (map_data e) tn) rnd of
        (Inl err, rnd1) \<Rightarrow> Some (Inl err, s, rnd1)
      | (Inr agent_pos, rnd1) \<Rightarrow>
          if get_pos_status (options e) s (Some agent_pos) = None
          then Some (Inr (), set_agent_pos s agent_index (Some agent_pos), rnd1)
          else find_pos n e tn agent_index s rnd1)"

fun randomize_from ::
  "nat \<Rightarrow> env \<Rightarrow> team_name \<times> nat \<Rightarrow> (team_name \<times> nat) list \<Rightarrow> state \<Rightarrow> rand
     \<Rightarrow> ((error + unit) \<times> state \<times> rand) option" where
  "randomize_from n e has_ball [] s rnd = Some (Inr (), s, rnd)"
| "randomize_from n e has_ball (tk # rest) s rnd =
     (let agent_index = get_agent_index (options e) (fst tk) (snd tk)
      in case find_pos n e (fst tk) agent_index s rnd of
           None \<Rightarrow> None
         | Some f \<Rightarrow>
             (case fst f of
                Inl err \<Rightarrow> Some (Inl err, snd f)
              | Inr _ \<Rightarrow>
                  (let set_ball = (fst tk = fst has_ball \<and> snd tk = snd has_ball);
                       s1 = set_agent_ball (fst (snd f)) agent_index set_ball
                   in if fst tk = COMPUTER
                      then (let m = random_choice modes (snd (snd f))
                            in case fst m of
                                 Inl err \<Rightarrow> Some (Inl err, s1, snd m)
                               | Inr computer_mode \<Rightarrow>
                                   randomize_from n e has_ball rest
                                     (set_agent_action
                                        (set_agent_mode s1 agent_index (Some computer_mode))
                                        agent_index (Some (last actions)))
                                     (snd m))
                      else randomize_from n e has_ball rest
                             (set_agent_action (set_agent_mode s1 agent_index None)
                                agent_index (Some (last actions)))
                             (snd (snd f)))))"

definition randomize :: "nat \<Rightarrow> env \<Rightarrow> state \<Rightarrow> rand \<Rightarrow> ((error + unit) \<times> state \<times> rand) option" where
  "randomize n e s rnd =
     (case random_choice team_names rnd of
        (Inl err, rnd1) \<Rightarrow> Some (Inl err, s, rnd1)
      | (Inr team_has_ball, rnd1) \<Rightarrow>
          (case random_randrange (team_size (options e)) rnd1 of
             (Inl err, rnd2) \<Rightarrow> Some (Inl err, s, rnd2)
           | (Inr team_agent_has_ball, rnd2) \<Rightarrow>
               randomize_from n e (team_has_ball, team_agent_has_ball)
                 (team_agents (options e)) s rnd2))"

text \<open>
  \<^verbatim>\<open>SoccerState.reset\<close> followed by the observation that \<^verbatim>\<open>SoccerEnvironment.reset\<close>
  builds. The fresh list holds \<open>get_agent_size\<close> agents with every field cleared.
\<close>

definition cleared_agent :: agent where
  "cleared_agent = \<lparr>pos = None, ball = False, mode = None, action = None\<rparr>"

definition reset :: "nat \<Rightarrow> env \<Rightarrow> state \<Rightarrow> rand \<Rightarrow> ((error + observation) \<times> state) option" where
  "reset n e s rnd =
     (let s0 = s\<lparr>agent_list := replicate (get_agent_size (options e)) cleared_agent\<rparr>
      in case randomize n e s0 rnd of
           None \<Rightarrow> None
         | Some r \<Rightarrow>
             (case fst r of
                Inl err \<Rightarrow> Some (Inl err, fst (snd r))
              | Inr _ \<Rightarrow>
                  (let s1 = (fst (snd r))\<lparr>time_step := 0\<rparr>
                   in Some (Inr \<lparr>obs_state = Some s1, obs_action = None,
                                 obs_reward = 0, obs_next_state = None\<rparr>,
                            s1))))"

subsection \<open>Reachable states\<close>

text \<open>
  The states a caller can see: the state \<^verbatim>\<open>reset\<close> leaves when it returns (the
  constructor of \<^verbatim>\<open>SoccerState\<close> calls it, so every state starts there), and the state
  any call of \<^verbatim>\<open>take_action\<close> leaves, whether it returns or raises.
\<close>

inductive reachable :: "env \<Rightarrow> state \<Rightarrow> bool" for e :: env where
  after_reset: "reset n e s0 rnd = Some (Inr ob, s) \<Longrightarrow> reachable e s"
| after_take_action:
    "reachable e s \<Longrightarrow> take_action n e a s rnd = Some (r, s') \<Longrightarrow> reachable e s'"

subsection \<open>Measures used in the properties\<close>

text \<open>The number of agents whose ball flag is set.\<close>

definition ball_count :: "state \<Rightarrow> nat" where
  "ball_count s = length (filter ball (agent_list s))"

text \<open>The square of the Euclidean distance, an integer on tile coordinates.\<close>

definition sq_distance :: "pos \<Rightarrow> pos \<Rightarrow> int" where
  "sq_distance pos1 pos2 = (fst pos2 - fst pos1)\<^sup>2 + (snd pos2 - snd pos1)\<^sup>2"

text \<open>
  The agent \<^verbatim>\<open>_update_ball_possession\<close> takes the ball from, and the agent
  \<^verbatim>\<open>random.choice\<close> gives it to, for a list of agents and a stream of draws.
\<close>

definition ball_holder :: "state \<Rightarrow> nat list \<Rightarrow> nat" where
  "ball_holder s js = last (filter (get_agent_ball s) js)"

definition chosen_agent :: "state \<Rightarrow> nat list \<Rightarrow> rand \<Rightarrow> nat" where
  "chosen_agent s js rnd =
     filter (\<lambda>i. \<not> get_agent_ball s i) js
       ! (shd rnd mod length (filter (\<lambda>i. \<not> get_agent_ball s i) js))"

text \<open>
  The overlap dictionary, described: for a function \<open>c\<close> from agents to the tiles they
  claim, \<open>claimants c n q\<close> are the agents below \<open>n\<close> that claim \<open>q\<close>, in ascending order,
  and \<open>grouped c n gs\<close> says that \<open>gs\<close> maps every claimed tile to its claimants.
\<close>

definition claimants :: "(nat \<Rightarrow> pos) \<Rightarrow> nat \<Rightarrow> pos \<Rightarrow> nat list" where
  "claimants c n q = filter (\<lambda>k. c k = q) [0..<n]"

definition grouped :: "(nat \<Rightarrow> pos) \<Rightarrow> nat \<Rightarrow> (pos \<times> nat list) list \<Rightarrow> bool" where
  "grouped c n gs =
     (distinct (map fst gs) \<and>
      map_of gs = (\<lambda>q. if claimants c n q = [] then None else Some (claimants c n q)))"

text \<open>
  One pass of the overlap loop, described on the intended positions alone: an agent is
  contested when another agent claims the same tile, a pass sends the contested agents
  back to their current positions, and the movers are the agents that claim a tile
  other than the one they stand on.
\<close>

definition contested :: "env \<Rightarrow> state \<Rightarrow> pos option list \<Rightarrow> nat \<Rightarrow> bool" where
  "contested e s ips j =
     (\<exists>k<length ips. k \<noteq> j \<and> claimed_pos e s k (ips ! k) = claimed_pos e s j (ips ! j))"

definition pass :: "env \<Rightarrow> state \<Rightarrow> pos option list \<Rightarrow> pos option list" where
  "pass e s ips =
     map (\<lambda>j. if contested e s ips j then get_agent_pos s j else ips ! j) [0..<length ips]"



subsection \<open>Invariants\<close>

text \<open>
  The invariant of the states a run shows: the roster is complete, every agent has a
  position, no two agents share one, and exactly one ball flag is set.
\<close>

definition valid_state :: "env \<Rightarrow> state \<Rightarrow> bool" where
  "valid_state e s =
     (length (agent_list s) = get_agent_size (options e) \<and>
      (\<forall>k<length (agent_list s). get_agent_pos s k \<noteq> None) \<and>
      distinct (map pos (agent_list s)) \<and>
      ball_count s = 1)"

text \<open>
  What \<^verbatim>\<open>_get_intended_pos\<close> stores for an agent: a position that is walkable or the
  agent's own.
\<close>

definition settled :: "env \<Rightarrow> state \<Rightarrow> nat \<Rightarrow> pos option \<Rightarrow> bool" where
  "settled e s j ip =
     (\<exists>p. ip = Some p \<and> (p \<in> set (walkable (map_data e)) \<or> get_agent_pos s j = Some p))"

text \<open>
  The state of \<^verbatim>\<open>randomize\<close> after \<open>m\<close> of the \<open>n\<close> agents have been placed, when the
  ball is meant for agent \<open>b\<close>: the agents placed so far have pairwise different
  positions, and the ball flag is set for \<open>b\<close> alone, once \<open>b\<close> has been placed.
\<close>

definition placed :: "nat \<Rightarrow> nat \<Rightarrow> nat \<Rightarrow> state \<Rightarrow> bool" where
  "placed n b m s =
     (length (agent_list s) = n \<and>
      (\<forall>k<m. get_agent_pos s k \<noteq> None) \<and>
      (\<forall>j<m. \<forall>k<m. j \<noteq> k \<longrightarrow> get_agent_pos s j \<noteq> get_agent_pos s k) \<and>
      (\<forall>k<n. get_agent_ball s k = (k < m \<and> k = b)))"

subsection \<open>A small pitch for the examples\<close>

text \<open>
  Seven tiles wide and two tiles high. The player's team spawns on the left and scores
  on the right border; the computer's team spawns on the right and scores on the left.
\<close>

definition ex_map :: map_data where
  "ex_map =
     \<lparr>spawn = (\<lambda>tn. case tn of PLAYER \<Rightarrow> [(1, 0), (2, 0)] | COMPUTER \<Rightarrow> [(5, 0), (4, 0)]),
      goals = (\<lambda>tn. case tn of PLAYER \<Rightarrow> [(6, 0), (6, 1)] | COMPUTER \<Rightarrow> [(0, 0), (0, 1)]),
      walkable = [(0, 0), (1, 0), (2, 0), (3, 0), (4, 0), (5, 0), (6, 0),
                  (0, 1), (1, 1), (2, 1), (3, 1), (4, 1), (5, 1), (6, 1)]\<rparr>"

definition ex_options :: "nat \<Rightarrow> options" where
  "ex_options n = \<lparr>map_path = ''soccer.tmx'', team_size = n\<rparr>"

definition ex_env :: "nat \<Rightarrow> env" where
  "ex_env n = \<lparr>options = ex_options n, map_data = ex_map\<rparr>"

definition ex_agent :: "pos \<Rightarrow> bool \<Rightarrow> mode option \<Rightarrow> agent" where
  "ex_agent p b m = \<lparr>pos = Some p, ball = b, mode = m, action = Some STAND\<rparr>"

text \<open>Four agents in a row; the first agent of the computer's team has the ball.\<close>

definition ex_state4 :: state where
  "ex_state4 =
     \<lparr>agent_list = [ex_agent (1, 0) False None, ex_agent (2, 0) False None,
                     ex_agent (4, 0) True (Some OFFENSIVE), ex_agent (5, 0) False (Some DEFENSIVE)],
      time_step = 0\<rparr>"

text \<open>Two agents of which none has the ball: a state no run of the environment shows.\<close>

definition ex_state_no_ball :: state where
  "ex_state_no_ball =
     \<lparr>agent_list = [ex_agent (1, 0) False None, ex_agent (5, 0) False (Some DEFENSIVE)],
      time_step = 0\<rparr>"

text \<open>Four agents side by side; the first agent of the player's team has the ball.\<close>

definition ex_state_row :: state where
  "ex_state_row =
     \<lparr>agent_list = [ex_agent (1, 0) True None, ex_agent (2, 0) False None,
                     ex_agent (3, 0) False (Some OFFENSIVE), ex_agent (4, 0) False (Some DEFENSIVE)],
      time_step = 0\<rparr>"

text \<open>Two agents that both have the ball: a state no run of the environment shows.\<close>

definition ex_state_two_balls :: state where
  "ex_state_two_balls =
     \<lparr>agent_list = [ex_agent (1, 0) True None, ex_agent (2, 0) True (Some DEFENSIVE)],
      time_step = 0\<rparr>"

text \<open>
  Two agents, each on a tile of the goal list filed under its own team name: the player
  on the right border, the computer on the left. In the first state the player has the
  ball, in the second the computer.
\<close>

definition ex_state_goal_right :: state where
  "ex_state_goal_right =
     \<lparr>agent_list = [ex_agent (6, 0) True None, ex_agent (0, 1) False (Some OFFENSIVE)],
      time_step = 7\<rparr>"

definition ex_state_goal_left :: state where
  "ex_state_goal_left =
     \<lparr>agent_list = [ex_agent (6, 0) False None, ex_agent (0, 1) True (Some OFFENSIVE)],
      time_step = 7\<rparr>"

section \<open>Properties\<close>

subsection \<open>Options and the winning test\<close>

text \<open>
  C8. Constructing the options succeeds exactly for the team sizes 1 and 2, and fails
  with ValueError (the specification's InvalidArgument) exactly for every other team
  size; the options that come out carry the team size that went in.
\<close>

theorem team_size_validation:
  "(\<exists>opts. SoccerEnvironmentOptions_init rp mp ts = Inr opts) = (ts \<in> {1, 2}) \<and>
   (SoccerEnvironmentOptions_init rp mp ts = Inl ValueError) = (ts \<notin> {1, 2}) \<and>
   (\<forall>opts. SoccerEnvironmentOptions_init rp mp ts = Inr opts \<longrightarrow> int (team_size opts) = ts)"
  by (auto simp: SoccerEnvironmentOptions_init_def Let_def)

theorem team_size_validation_witness:
  "(\<exists>opts. SoccerEnvironmentOptions_init ''soccer.tmx'' None 2 = Inr opts) \<and>
   SoccerEnvironmentOptions_init ''soccer.tmx'' None 2
     = Inr \<lparr>map_path = ''soccer.tmx'', team_size = 2\<rparr> \<and>
   SoccerEnvironmentOptions_init ''soccer.tmx'' None 3 = Inl ValueError \<and>
   SoccerEnvironmentOptions_init ''soccer.tmx'' None 0 = Inl ValueError"
  using team_size_validation [of "''soccer.tmx''" None 2]
    team_size_validation [of "''soccer.tmx''" None 3]
    team_size_validation [of "''soccer.tmx''" None 0]
  by (simp add: SoccerEnvironmentOptions_init_def)

lemma get_pos_distance_sq: "get_pos_distance p q = sqrt (real_of_int (sq_distance p q))"
  by (simp add: get_pos_distance_def sq_distance_def)

lemma get_pos_distance_less_iff:
  "(get_pos_distance p q < get_pos_distance p' q') = (sq_distance p q < sq_distance p' q')"
  by (simp add: get_pos_distance_sq)

lemma get_pos_distance_ge_1_iff: "(1 \<le> get_pos_distance p q) = (1 \<le> sq_distance p q)"
  by (simp add: get_pos_distance_sq)

lemma get_pos_distance_less_1_iff: "(get_pos_distance p q < 1) = (sq_distance p q < 1)"
  by (simp add: get_pos_distance_sq)

lemma argmin_scan_bound:
  "best < i \<Longrightarrow> argmin_scan ys i best bv < i + length ys"
proof (induction ys arbitrary: i best bv)
  case Nil
  then show ?case by simp
next
  case (Cons y ys)
  have "argmin_scan ys (Suc i) i y < Suc i + length ys"
    by (rule Cons.IH) simp
  moreover have "argmin_scan ys (Suc i) best bv < Suc i + length ys"
    by (rule Cons.IH) (use Cons.prems in simp)
  ultimately show ?case by simp
qed

lemma argmax_scan_bound:
  "best < i \<Longrightarrow> argmax_scan ys i best bv < i + length ys"
proof (induction ys arbitrary: i best bv)
  case Nil
  then show ?case by simp
next
  case (Cons y ys)
  have "argmax_scan ys (Suc i) i y < Suc i + length ys"
    by (rule Cons.IH) simp
  moreover have "argmax_scan ys (Suc i) best bv < Suc i + length ys"
    by (rule Cons.IH) (use Cons.prems in simp)
  ultimately show ?case by simp
qed

lemma np_argmin_bound: "np_argmin ds = Inr k \<Longrightarrow> k < length ds"
  using argmin_scan_bound [of 0 1]
  by (cases ds) (auto simp: np_argmin_def)

lemma np_argmax_bound: "np_argmax ds = Inr k \<Longrightarrow> k < length ds"
  using argmax_scan_bound [of 0 1]
  by (cases ds) (auto simp: np_argmax_def)

lemma goal_distances_length: "goal_distances gs p = Inr ds \<Longrightarrow> length ds = length gs"
  by (auto simp: goal_distances_def split: option.splits if_splits)

lemma ex_target_offensive:
  "computer_target ex_map (Some OFFENSIVE) True (Some (6, 0)) (Some (6, 0))
     = Inr (Some (0, 1), APPROACH)"
  by (simp add: computer_target_def goal_distances_def np_argmax_def ex_map_def
      get_pos_distance_less_iff sq_distance_def)

lemma ex_target_defensive:
  "computer_target ex_map (Some DEFENSIVE) False (Some (6, 0)) (Some (6, 0))
     = Inr (Some (6, 0), APPROACH)"
  by (simp add: computer_target_def goal_distances_def np_argmin_def ex_map_def
      get_pos_distance_less_iff sq_distance_def)

text \<open>
  C5. An agent wins exactly when it holds the ball and stands in the goal set of the
  opposing side. The agents below \<open>team_size\<close> are the player's, and for them the
  set is \<open>goals PLAYER\<close>; the other agents are the computer's, and for them it is
  \<open>goals COMPUTER\<close>. That the list filed under a team's name lies on the opposing side,
  where this team scores, is what the scripted opponent does with the two lists: with
  the ball and on the attack it runs to a tile of \<open>goals COMPUTER\<close>, and without the
  ball and in defence it runs to a tile of \<open>goals PLAYER\<close>, the goal it guards.
\<close>

theorem is_agent_win_iff:
  "(i < team_size (options e) \<longrightarrow>
      is_agent_win e s i =
        (get_agent_ball s i \<and>
         (\<exists>p. get_agent_pos s i = Some p \<and> p \<in> set (goals (map_data e) PLAYER)))) \<and>
   (team_size (options e) \<le> i \<and> i < get_agent_size (options e) \<longrightarrow>
      is_agent_win e s i =
        (get_agent_ball s i \<and>
         (\<exists>p. get_agent_pos s i = Some p \<and> p \<in> set (goals (map_data e) COMPUTER)))) \<and>
   (\<forall>nearest target t m.
      computer_target (map_data e) (Some OFFENSIVE) True nearest target = Inr (t, m) \<longrightarrow>
      m = APPROACH \<and> (\<exists>q. t = Some q \<and> q \<in> set (goals (map_data e) COMPUTER))) \<and>
   (\<forall>nearest target t m.
      computer_target (map_data e) (Some DEFENSIVE) False nearest target = Inr (t, m) \<longrightarrow>
      m = APPROACH \<and> (\<exists>q. t = Some q \<and> q \<in> set (goals (map_data e) PLAYER)))"
proof -
  have c1: "i < team_size (options e) \<longrightarrow>
      is_agent_win e s i =
        (get_agent_ball s i \<and>
         (\<exists>p. get_agent_pos s i = Some p \<and> p \<in> set (goals (map_data e) PLAYER)))"
    by (simp add: is_agent_win_def get_team_name_def Let_def split: option.splits)
  have c2: "team_size (options e) \<le> i \<and> i < get_agent_size (options e) \<longrightarrow>
      is_agent_win e s i =
        (get_agent_ball s i \<and>
         (\<exists>p. get_agent_pos s i = Some p \<and> p \<in> set (goals (map_data e) COMPUTER)))"
    by (simp add: is_agent_win_def get_team_name_def Let_def split: option.splits)
  have c3: "m = APPROACH \<and> (\<exists>q. t = Some q \<and> q \<in> set (goals (map_data e) COMPUTER))"
    if a: "computer_target (map_data e) (Some OFFENSIVE) True nearest target = Inr (t, m)"
    for nearest target t m
  proof -
    from a obtain ds k where ds: "goal_distances (goals (map_data e) COMPUTER) nearest = Inr ds"
      and k: "np_argmax ds = Inr k"
      and r: "t = Some (goals (map_data e) COMPUTER ! k)" "m = APPROACH"
      by (auto simp: computer_target_def split: sum.splits)
    from np_argmax_bound [OF k] goal_distances_length [OF ds]
    have "goals (map_data e) COMPUTER ! k \<in> set (goals (map_data e) COMPUTER)" by simp
    with r show ?thesis by simp
  qed
  have c4: "m = APPROACH \<and> (\<exists>q. t = Some q \<and> q \<in> set (goals (map_data e) PLAYER))"
    if a: "computer_target (map_data e) (Some DEFENSIVE) False nearest target = Inr (t, m)"
    for nearest target t m
  proof -
    from a obtain ds k where ds: "goal_distances (goals (map_data e) PLAYER) target = Inr ds"
      and k: "np_argmin ds = Inr k"
      and r: "t = Some (goals (map_data e) PLAYER ! k)" "m = APPROACH"
      by (auto simp: computer_target_def split: sum.splits)
    from np_argmin_bound [OF k] goal_distances_length [OF ds]
    have "goals (map_data e) PLAYER ! k \<in> set (goals (map_data e) PLAYER)" by simp
    with r show ?thesis by simp
  qed
  from c1 c2 c3 c4 show ?thesis by blast
qed

theorem is_agent_win_iff_witness:
  "(0::nat) < team_size (options (ex_env 1)) \<and>
   team_size (options (ex_env 1)) \<le> 1 \<and> 1 < get_agent_size (options (ex_env 1)) \<and>
   is_agent_win (ex_env 1) ex_state_goal_right 0 \<and>
   \<not> is_agent_win (ex_env 1) ex_state_goal_right 1 \<and>
   \<not> is_agent_win (ex_env 1) ex_state_goal_left 0 \<and>
   is_agent_win (ex_env 1) ex_state_goal_left 1 \<and>
   \<not> is_agent_win (ex_env 1) (switch_ball ex_state_goal_right 0 1) 0 \<and>
   get_agent_pos ex_state_goal_right 0 = Some (6, 0) \<and>
   (6, 0) \<in> set (goals (map_data (ex_env 1)) PLAYER) \<and>
   (6, 0) \<notin> set (goals (map_data (ex_env 1)) COMPUTER) \<and>
   get_agent_pos ex_state_goal_left 1 = Some (0, 1) \<and>
   (0, 1) \<in> set (goals (map_data (ex_env 1)) COMPUTER) \<and>
   (0, 1) \<notin> set (goals (map_data (ex_env 1)) PLAYER) \<and>
   computer_target (map_data (ex_env 1)) (Some OFFENSIVE) True (Some (6, 0)) (Some (6, 0))
     = Inr (Some (0, 1), APPROACH) \<and>
   computer_target (map_data (ex_env 1)) (Some DEFENSIVE) False (Some (6, 0)) (Some (6, 0))
     = Inr (Some (6, 0), APPROACH)"
proof -
  have h: "(0::nat) < team_size (options (ex_env 1))"
    "team_size (options (ex_env 1)) \<le> 1 \<and> 1 < get_agent_size (options (ex_env 1))"
    by (simp_all add: ex_env_def ex_options_def get_agent_size_def)
  have md: "map_data (ex_env 1) = ex_map" by (simp add: ex_env_def)
  note w = is_agent_win_iff [of _ "ex_env 1", THEN conjunct1, rule_format, OF h(1)]
    is_agent_win_iff [of _ "ex_env 1", THEN conjunct2, THEN conjunct1, rule_format, OF h(2)]
  have "is_agent_win (ex_env 1) ex_state_goal_right 0"
    "\<not> is_agent_win (ex_env 1) ex_state_goal_right 1"
    "\<not> is_agent_win (ex_env 1) ex_state_goal_left 0"
    "is_agent_win (ex_env 1) ex_state_goal_left 1"
    "\<not> is_agent_win (ex_env 1) (switch_ball ex_state_goal_right 0 1) 0"
    unfolding w
    by (simp_all add: ex_state_goal_right_def ex_state_goal_left_def ex_agent_def ex_env_def
        ex_map_def get_agent_ball_def get_agent_pos_def switch_ball_def set_agent_ball_def Let_def)
  moreover have "get_agent_pos ex_state_goal_right 0 = Some (6, 0)"
    "get_agent_pos ex_state_goal_left 1 = Some (0, 1)"
    "(6, 0) \<in> set (goals (map_data (ex_env 1)) PLAYER)"
    "(6, 0) \<notin> set (goals (map_data (ex_env 1)) COMPUTER)"
    "(0, 1) \<in> set (goals (map_data (ex_env 1)) COMPUTER)"
    "(0, 1) \<notin> set (goals (map_data (ex_env 1)) PLAYER)"
    by (simp_all add: ex_state_goal_right_def ex_state_goal_left_def ex_agent_def ex_env_def
        ex_map_def get_agent_pos_def)
  ultimately show ?thesis
    using h ex_target_offensive ex_target_defensive unfolding md by blast
qed

subsection \<open>Ball flags\<close>

lemma get_agent_ball_set_agent_ball:
  "get_agent_ball (set_agent_ball s i b) j =
     (if j = i \<and> i < length (agent_list s) then b else get_agent_ball s j)"
  by (cases "i < length (agent_list s)")
    (auto simp: get_agent_ball_def set_agent_ball_def nth_list_update list_update_beyond)

lemma length_set_agent_ball: "length (agent_list (set_agent_ball s i b)) = length (agent_list s)"
  by (simp add: set_agent_ball_def)

lemma get_agent_ball_switch_ball:
  "get_agent_ball (switch_ball s a b) c =
     (if c = b \<and> b < length (agent_list s) then get_agent_ball s a
      else if c = a \<and> a < length (agent_list s) then \<not> get_agent_ball s a
      else get_agent_ball s c)"
  by (simp add: switch_ball_def Let_def get_agent_ball_set_agent_ball length_set_agent_ball)

lemma length_switch_ball: "length (agent_list (switch_ball s a b)) = length (agent_list s)"
  by (simp add: switch_ball_def Let_def length_set_agent_ball)

lemma filter_update_gain:
  "i < length xs \<Longrightarrow> \<not> P (xs ! i) \<Longrightarrow> P x \<Longrightarrow>
     length (filter P (xs[i := x])) = Suc (length (filter P xs))"
proof (induction xs arbitrary: i)
  case Nil
  then show ?case by simp
next
  case (Cons y ys)
  then show ?case by (cases i) auto
qed

lemma filter_update_lose:
  "i < length xs \<Longrightarrow> P (xs ! i) \<Longrightarrow> \<not> P x \<Longrightarrow>
     Suc (length (filter P (xs[i := x]))) = length (filter P xs)"
proof (induction xs arbitrary: i)
  case Nil
  then show ?case by simp
next
  case (Cons y ys)
  then show ?case by (cases i) auto
qed

lemma filter_update_same:
  "i < length xs \<Longrightarrow> P (xs ! i) = P x \<Longrightarrow>
     length (filter P (xs[i := x])) = length (filter P xs)"
proof (induction xs arbitrary: i)
  case Nil
  then show ?case by simp
next
  case (Cons y ys)
  then show ?case by (cases i) auto
qed

lemma ball_count_set_gain:
  "i < length (agent_list s) \<Longrightarrow> \<not> get_agent_ball s i \<Longrightarrow>
     ball_count (set_agent_ball s i True) = Suc (ball_count s)"
  by (simp add: ball_count_def set_agent_ball_def get_agent_ball_def filter_update_gain)

lemma ball_count_set_lose:
  "i < length (agent_list s) \<Longrightarrow> get_agent_ball s i \<Longrightarrow>
     Suc (ball_count (set_agent_ball s i False)) = ball_count s"
  by (simp add: ball_count_def set_agent_ball_def get_agent_ball_def filter_update_lose)

lemma ball_count_set_same:
  "i < length (agent_list s) \<Longrightarrow> get_agent_ball s i = b \<Longrightarrow>
     ball_count (set_agent_ball s i b) = ball_count s"
  by (simp add: ball_count_def set_agent_ball_def get_agent_ball_def filter_update_same)

text \<open>
  C9. For two agents \<open>a\<close> and \<open>b\<close> of the roster of which neither holds the ball,
  \<open>switch_ball s a b\<close> is not a no-op: afterwards \<open>a\<close> has the ball flag and \<open>b\<close> has
  not, every other agent keeps its flag, and the number of ball flags has grown by one,
  so a ball held by a third agent now has a duplicate.
\<close>

theorem switch_ball_fabricates:
  assumes "a < length (agent_list s)" "b < length (agent_list s)" "a \<noteq> b"
    and "\<not> get_agent_ball s a" "\<not> get_agent_ball s b"
  shows "get_agent_ball (switch_ball s a b) a \<and>
         \<not> get_agent_ball (switch_ball s a b) b \<and>
         switch_ball s a b \<noteq> s \<and>
         (\<forall>c. c \<noteq> a \<longrightarrow> c \<noteq> b \<longrightarrow> get_agent_ball (switch_ball s a b) c = get_agent_ball s c) \<and>
         ball_count (switch_ball s a b) = Suc (ball_count s)"
proof -
  have a: "get_agent_ball (switch_ball s a b) a"
    using assms by (simp add: get_agent_ball_switch_ball)
  have b: "\<not> get_agent_ball (switch_ball s a b) b"
    using assms by (simp add: get_agent_ball_switch_ball)
  have ne: "switch_ball s a b \<noteq> s"
    using a assms(4) by auto
  have others: "\<forall>c. c \<noteq> a \<longrightarrow> c \<noteq> b \<longrightarrow> get_agent_ball (switch_ball s a b) c = get_agent_ball s c"
    by (simp add: get_agent_ball_switch_ball)
  have "ball_count (set_agent_ball s a True) = Suc (ball_count s)"
    using assms by (simp add: ball_count_set_gain)
  moreover have "ball_count (set_agent_ball (set_agent_ball s a True) b False)
      = ball_count (set_agent_ball s a True)"
    using assms
    by (intro ball_count_set_same) (simp_all add: length_set_agent_ball get_agent_ball_set_agent_ball)
  ultimately have cnt: "ball_count (switch_ball s a b) = Suc (ball_count s)"
    using assms by (simp add: switch_ball_def Let_def)
  from a b ne others cnt show ?thesis by blast
qed

theorem switch_ball_fabricates_witness:
  "(0::nat) < length (agent_list ex_state4) \<and> (1::nat) < length (agent_list ex_state4) \<and>
   \<not> get_agent_ball ex_state4 0 \<and> \<not> get_agent_ball ex_state4 1 \<and>
   get_agent_ball ex_state4 2 \<and>
   get_agent_ball (switch_ball ex_state4 0 1) 0 \<and>
   \<not> get_agent_ball (switch_ball ex_state4 0 1) 1 \<and>
   get_agent_ball (switch_ball ex_state4 0 1) 2 \<and>
   ball_count ex_state4 = 1 \<and>
   ball_count (switch_ball ex_state4 0 1) = 2"
proof -
  have h: "(0::nat) < length (agent_list ex_state4)" "(1::nat) < length (agent_list ex_state4)"
    "(0::nat) \<noteq> 1" "\<not> get_agent_ball ex_state4 0" "\<not> get_agent_ball ex_state4 1"
    by (simp_all add: ex_state4_def ex_agent_def get_agent_ball_def)
  have c: "ball_count ex_state4 = 1" "get_agent_ball ex_state4 2"
    by (simp_all add: ex_state4_def ex_agent_def get_agent_ball_def ball_count_def)
  from switch_ball_fabricates [OF h] c h show ?thesis
    by simp
qed

text \<open>
  The two agents are two: when both arguments name the same agent, the second
  assignment undoes the first and the call leaves the state as it was. The one call in
  the sources passes a holder and a non-holder.
\<close>

lemma switch_ball_same_agent_noop:
  "\<not> get_agent_ball ex_state4 0 \<and>
   switch_ball ex_state4 0 0 = ex_state4 \<and>
   \<not> get_agent_ball (switch_ball ex_state4 0 0) 0"
  by (simp add: switch_ball_def set_agent_ball_def get_agent_ball_def ex_state4_def ex_agent_def
      Let_def)

subsection \<open>Looking up the ball holder\<close>

lemma team_agents_append:
  "team_agents opts = map (Pair PLAYER) [0..<team_size opts] @ map (Pair COMPUTER) [0..<team_size opts]"
  by (simp add: team_agents_def team_names_def)

lemma length_team_agents: "length (team_agents opts) = get_agent_size opts"
  by (simp add: team_agents_append get_agent_size_def)

lemma team_agents_nth:
  "i < get_agent_size opts \<Longrightarrow>
     team_agents opts ! i =
       (get_team_name opts i, if i < team_size opts then i else i - team_size opts)"
  by (auto simp: team_agents_append get_agent_size_def get_team_name_def nth_append)

lemma index_team_agents_nth:
  "i < get_agent_size opts \<Longrightarrow>
     get_agent_index opts (fst (team_agents opts ! i)) (snd (team_agents opts ! i)) = i"
  by (auto simp: team_agents_nth get_agent_index_def get_team_name_def group_index_def)

lemma make_ref_team_agents_nth:
  "i < get_agent_size opts \<Longrightarrow>
     make_ref opts (team_agents opts ! i) =
       \<lparr>ref_team_name = get_team_name opts i,
        ref_team_agent_index = (if i < team_size opts then i else i - team_size opts),
        ref_agent_index = i\<rparr>"
  using index_team_agents_nth [of i opts] by (simp add: make_ref_def team_agents_nth)

lemma find_None_nth: "(find P xs = None) = (\<forall>i<length xs. \<not> P (xs ! i))"
  by (auto simp: find_None_iff in_set_conv_nth)

lemma get_ball_possession_None:
  "(get_ball_possession opts s = None) = (\<forall>i<get_agent_size opts. \<not> get_agent_ball s i)"
proof -
  have "(get_ball_possession opts s = None) =
      (\<forall>i<length (team_agents opts).
         \<not> get_agent_ball s (get_agent_index opts (fst (team_agents opts ! i)) (snd (team_agents opts ! i))))"
    unfolding get_ball_possession_def by (simp add: find_None_nth)
  also have "\<dots> = (\<forall>i<get_agent_size opts. \<not> get_agent_ball s i)"
    by (simp add: length_team_agents index_team_agents_nth)
  finally show ?thesis .
qed

lemma get_ball_possession_Some:
  "(get_ball_possession opts s = Some r) =
     (\<exists>i<get_agent_size opts. get_agent_ball s i \<and> (\<forall>j<i. \<not> get_agent_ball s j) \<and>
        r = \<lparr>ref_team_name = get_team_name opts i,
             ref_team_agent_index = (if i < team_size opts then i else i - team_size opts),
             ref_agent_index = i\<rparr>)"
proof -
  let ?P = "\<lambda>tk. get_agent_ball s (get_agent_index opts (fst tk) (snd tk))"
  have "(get_ball_possession opts s = Some r) =
      (\<exists>x. find ?P (team_agents opts) = Some x \<and> r = make_ref opts x)"
    by (auto simp: get_ball_possession_def)
  also have "\<dots> = (\<exists>i<length (team_agents opts). ?P (team_agents opts ! i) \<and>
       (\<forall>j<i. \<not> ?P (team_agents opts ! j)) \<and> r = make_ref opts (team_agents opts ! i))"
    by (simp add: find_Some_iff del: split_paired_Ex) blast
  also have "\<dots> = (\<exists>i<get_agent_size opts. get_agent_ball s i \<and> (\<forall>j<i. \<not> get_agent_ball s j) \<and>
        r = \<lparr>ref_team_name = get_team_name opts i,
             ref_team_agent_index = (if i < team_size opts then i else i - team_size opts),
             ref_agent_index = i\<rparr>)"
    unfolding length_team_agents
    by (intro ex_cong1 conj_cong refl)
      (simp_all add: index_team_agents_nth make_ref_team_agents_nth)
  finally show ?thesis .
qed

text \<open>
  C7, as amended. \<open>get_ball_possession\<close> returns \<open>None\<close> exactly when no agent of the
  roster holds the ball; it raises nothing. Otherwise it returns the team name, the
  index in the team and the agent index of the first holder in the order of
  enumeration, which is the holder when there is only one.
\<close>

theorem get_ball_possession_first_holder:
  "(get_ball_possession opts s = None) = (\<forall>i<get_agent_size opts. \<not> get_agent_ball s i) \<and>
   (\<forall>i. i < get_agent_size opts \<and> get_agent_ball s i \<and> (\<forall>j<i. \<not> get_agent_ball s j) \<longrightarrow>
      get_ball_possession opts s =
        Some \<lparr>ref_team_name = get_team_name opts i,
              ref_team_agent_index = (if i < team_size opts then i else i - team_size opts),
              ref_agent_index = i\<rparr>) \<and>
   (\<forall>i. i < get_agent_size opts \<and> get_agent_ball s i \<and>
        (\<forall>j<get_agent_size opts. get_agent_ball s j \<longrightarrow> j = i) \<longrightarrow>
      get_ball_possession opts s =
        Some \<lparr>ref_team_name = get_team_name opts i,
              ref_team_agent_index = (if i < team_size opts then i else i - team_size opts),
              ref_agent_index = i\<rparr>)"
proof (intro conjI allI impI)
  show "(get_ball_possession opts s = None) = (\<forall>i<get_agent_size opts. \<not> get_agent_ball s i)"
    by (rule get_ball_possession_None)
next
  fix i
  assume "i < get_agent_size opts \<and> get_agent_ball s i \<and> (\<forall>j<i. \<not> get_agent_ball s j)"
  then show "get_ball_possession opts s =
        Some \<lparr>ref_team_name = get_team_name opts i,
              ref_team_agent_index = (if i < team_size opts then i else i - team_size opts),
              ref_agent_index = i\<rparr>"
    unfolding get_ball_possession_Some by blast
next
  fix i
  assume h: "i < get_agent_size opts \<and> get_agent_ball s i \<and>
        (\<forall>j<get_agent_size opts. get_agent_ball s j \<longrightarrow> j = i)"
  then have "\<forall>j<i. \<not> get_agent_ball s j"
    by (metis less_trans nat_neq_iff)
  with h show "get_ball_possession opts s =
        Some \<lparr>ref_team_name = get_team_name opts i,
              ref_team_agent_index = (if i < team_size opts then i else i - team_size opts),
              ref_agent_index = i\<rparr>"
    unfolding get_ball_possession_Some by blast
qed

theorem get_ball_possession_first_holder_witness:
  "(2::nat) < get_agent_size (ex_options 2) \<and> get_agent_ball ex_state4 2 \<and>
   \<not> get_agent_ball ex_state4 0 \<and> \<not> get_agent_ball ex_state4 1 \<and>
   get_ball_possession (ex_options 2) ex_state4 =
     Some \<lparr>ref_team_name = COMPUTER, ref_team_agent_index = 0, ref_agent_index = 2\<rparr>"
proof -
  have h: "(2::nat) < get_agent_size (ex_options 2) \<and> get_agent_ball ex_state4 2 \<and>
      (\<forall>j<2. \<not> get_agent_ball ex_state4 j)"
    by (simp add: get_agent_size_def ex_options_def ex_state4_def ex_agent_def get_agent_ball_def
        less_Suc_eq numeral_2_eq_2)
  from get_ball_possession_first_holder [of "ex_options 2" ex_state4] h
  have "get_ball_possession (ex_options 2) ex_state4 =
      Some \<lparr>ref_team_name = get_team_name (ex_options 2) 2,
            ref_team_agent_index = (if 2 < team_size (ex_options 2) then 2 else 2 - team_size (ex_options 2)),
            ref_agent_index = 2\<rparr>"
    by blast
  then show ?thesis
    using h by (simp add: get_team_name_def ex_options_def)
qed

text \<open>
  C7 as stated fails where it speaks of an error: in a state without a ball holder the
  call returns \<open>None\<close>, Python's \<^verbatim>\<open>None\<close>, as the last line of the method says.
\<close>

theorem get_ball_possession_returns_None:
  "get_ball_possession (ex_options 1) ex_state_no_ball = None"
  by (simp add: get_ball_possession_def team_agents_def team_names_def ex_options_def
      ex_state_no_ball_def ex_agent_def get_agent_ball_def get_agent_index_def group_index_def)

subsection \<open>The greedy action search\<close>

lemma intercept_scan_invariant:
  assumes "snd best \<le> d0"
    and "best = (a0, d0) \<or>
         (get_moved_pos source (fst best) \<in> set wk \<and>
          snd best = get_pos_distance (get_moved_pos source (fst best)) target \<and>
          1 \<le> snd best \<and> snd best < d0)"
  shows "let r = strategic_scan wk source target INTERCEPT as best
         in snd r \<le> d0 \<and>
            (r = (a0, d0) \<or>
             (get_moved_pos source (fst r) \<in> set wk \<and>
              snd r = get_pos_distance (get_moved_pos source (fst r)) target \<and>
              1 \<le> snd r \<and> snd r < d0))"
  using assms
proof (induction as arbitrary: best)
  case Nil
  then show ?case by simp
next
  case (Cons a as)
  show ?case
  proof (cases "get_moved_pos source a \<in> set wk \<and>
                get_pos_distance (get_moved_pos source a) target < snd best \<and>
                1 \<le> get_pos_distance (get_moved_pos source a) target")
    case True
    let ?b = "(a, get_pos_distance (get_moved_pos source a) target)"
    have step: "strategic_scan wk source target INTERCEPT (a # as) best
        = strategic_scan wk source target INTERCEPT as ?b"
      using True by (simp add: Let_def)
    have "snd ?b \<le> d0" using True Cons.prems(1) by simp
    moreover have "?b = (a0, d0) \<or>
         (get_moved_pos source (fst ?b) \<in> set wk \<and>
          snd ?b = get_pos_distance (get_moved_pos source (fst ?b)) target \<and>
          1 \<le> snd ?b \<and> snd ?b < d0)"
      using True Cons.prems(1) by simp
    ultimately show ?thesis
      unfolding step by (rule Cons.IH)
  next
    case False
    have step: "strategic_scan wk source target INTERCEPT (a # as) best
        = strategic_scan wk source target INTERCEPT as best"
      using False by (auto simp: Let_def)
    show ?thesis
      unfolding step using Cons.prems by (rule Cons.IH)
  qed
qed

lemma length_actions: "length actions = 5"
  by (simp add: actions_def)

lemma actions_not_Nil: "actions \<noteq> []"
  by (simp add: actions_def)

lemma random_choice_actions:
  "random_choice actions rnd = (Inr (actions ! (shd rnd mod 5)), stl rnd)"
  by (simp add: random_choice_def length_actions actions_not_Nil)

lemma get_strategic_action_eq:
  "fst (get_strategic_action md source target m rnd) =
     Inr (fst (strategic_scan (walkable md) source target m
                 (fst (sample_from 5 actions (stl rnd)))
                 (actions ! (shd rnd mod 5), get_pos_distance source target)))"
  by (simp add: get_strategic_action_def random_choice_actions random_sample_def length_actions
      Let_def)

lemma five_Suc: "(5::nat) = Suc (Suc (Suc (Suc (Suc 0))))"
  by simp

lemma sample_from_sconst_0: "fst (sample_from 5 actions (sconst 0)) = actions"
  unfolding five_Suc actions_def by (simp add: Let_def)

text \<open>
  C6, as amended. In the mode INTERCEPT the search always returns an action, and the
  action is either the default that \<^verbatim>\<open>random.choice\<close> drew before the scan, or an action
  whose tile is walkable, at distance at least 1 from the target and strictly closer to
  it than the source. The scan itself never picks the target tile; the random default
  is not checked.
\<close>

theorem intercept_default_or_improvement:
  "\<exists>a. fst (get_strategic_action md source target INTERCEPT rnd) = Inr a \<and>
       (fst (random_choice actions rnd) = Inr a \<or>
        (get_moved_pos source a \<in> set (walkable md) \<and>
         1 \<le> get_pos_distance (get_moved_pos source a) target \<and>
         get_pos_distance (get_moved_pos source a) target < get_pos_distance source target))"
proof -
  let ?a0 = "actions ! (shd rnd mod 5)"
  let ?d0 = "get_pos_distance source target"
  let ?r = "strategic_scan (walkable md) source target INTERCEPT
              (fst (sample_from 5 actions (stl rnd))) (?a0, ?d0)"
  have "let r = ?r in snd r \<le> ?d0 \<and>
            (r = (?a0, ?d0) \<or>
             (get_moved_pos source (fst r) \<in> set (walkable md) \<and>
              snd r = get_pos_distance (get_moved_pos source (fst r)) target \<and>
              1 \<le> snd r \<and> snd r < ?d0))"
    by (rule intercept_scan_invariant) simp_all
  then have "fst ?r = ?a0 \<or>
      (get_moved_pos source (fst ?r) \<in> set (walkable md) \<and>
       1 \<le> get_pos_distance (get_moved_pos source (fst ?r)) target \<and>
       get_pos_distance (get_moved_pos source (fst ?r)) target < ?d0)"
    by (auto simp: Let_def)
  then show ?thesis
    by (auto simp: get_strategic_action_eq random_choice_actions)
qed

theorem intercept_default_or_improvement_witness:
  "fst (get_strategic_action ex_map (1, 0) (3, 0) INTERCEPT (sconst 0)) = Inr MOVE_RIGHT \<and>
   get_moved_pos (1, 0) MOVE_RIGHT \<in> set (walkable ex_map) \<and>
   1 \<le> get_pos_distance (get_moved_pos (1, 0) MOVE_RIGHT) (3, 0) \<and>
   get_pos_distance (get_moved_pos (1, 0) MOVE_RIGHT) (3, 0) < get_pos_distance (1, 0) (3, 0)"
proof -
  have scan: "strategic_scan (walkable ex_map) (1, 0) (3, 0) INTERCEPT actions
      (MOVE_RIGHT, get_pos_distance (1, 0) (3, 0)) = (MOVE_RIGHT, get_pos_distance (2, 0) (3, 0))"
    by (simp add: actions_def ex_map_def Let_def
        get_pos_distance_less_iff get_pos_distance_ge_1_iff sq_distance_def)
  have "actions ! (shd (sconst (0::nat)) mod 5) = MOVE_RIGHT"
    by (simp add: actions_def)
  then have r: "fst (get_strategic_action ex_map (1, 0) (3, 0) INTERCEPT (sconst 0)) = Inr MOVE_RIGHT"
    by (simp add: get_strategic_action_eq sample_from_sconst_0 scan)
  from intercept_default_or_improvement [of ex_map "(1, 0)" "(3, 0)" "sconst 0"] r
  have "fst (random_choice actions (sconst 0)) = Inr MOVE_RIGHT \<or>
        (get_moved_pos (1, 0) MOVE_RIGHT \<in> set (walkable ex_map) \<and>
         1 \<le> get_pos_distance (get_moved_pos (1, 0) MOVE_RIGHT) (3, 0) \<and>
         get_pos_distance (get_moved_pos (1, 0) MOVE_RIGHT) (3, 0) < get_pos_distance (1, 0) (3, 0))"
    by auto
  moreover have "get_moved_pos (1, 0) MOVE_RIGHT \<in> set (walkable ex_map) \<and>
         1 \<le> get_pos_distance (get_moved_pos (1, 0) MOVE_RIGHT) (3, 0) \<and>
         get_pos_distance (get_moved_pos (1, 0) MOVE_RIGHT) (3, 0) < get_pos_distance (1, 0) (3, 0)"
    by (simp add: ex_map_def get_pos_distance_less_iff get_pos_distance_ge_1_iff sq_distance_def)
  ultimately show ?thesis using r by simp
qed

text \<open>
  C6 as stated fails next to the target. From \<open>(1, 0)\<close> with the target on \<open>(2, 0)\<close>
  no action is an improvement at distance at least 1, so the default stands; when the
  default is MOVE_RIGHT the opponent steps onto the target tile, at distance 0.
\<close>

theorem intercept_lands_on_target:
  "fst (get_strategic_action ex_map (1, 0) (2, 0) INTERCEPT (sconst 0)) = Inr MOVE_RIGHT \<and>
   (1, 0) \<in> set (walkable ex_map) \<and>
   get_moved_pos (1, 0) MOVE_RIGHT = (2, 0) \<and>
   get_pos_distance (get_moved_pos (1, 0) MOVE_RIGHT) (2, 0) < 1"
proof -
  have scan: "strategic_scan (walkable ex_map) (1, 0) (2, 0) INTERCEPT actions
      (MOVE_RIGHT, get_pos_distance (1, 0) (2, 0)) = (MOVE_RIGHT, get_pos_distance (1, 0) (2, 0))"
    by (simp add: actions_def ex_map_def Let_def
        get_pos_distance_less_iff get_pos_distance_ge_1_iff sq_distance_def)
  have "actions ! (shd (sconst (0::nat)) mod 5) = MOVE_RIGHT"
    by (simp add: actions_def)
  then have "fst (get_strategic_action ex_map (1, 0) (2, 0) INTERCEPT (sconst 0)) = Inr MOVE_RIGHT"
    by (simp add: get_strategic_action_eq sample_from_sconst_0 scan)
  moreover have "(1, 0) \<in> set (walkable ex_map)"
    by (simp add: ex_map_def)
  moreover have "get_pos_distance (get_moved_pos (1, 0) MOVE_RIGHT) (2, 0) < 1"
    by (simp add: get_pos_distance_less_1_iff sq_distance_def)
  ultimately show ?thesis by simp
qed

subsection \<open>Overlap resolution\<close>

lemma map_of_add_agent:
  "map_of (add_agent p i gs) =
     (map_of gs)(p \<mapsto> (case map_of gs p of None \<Rightarrow> [i] | Some js \<Rightarrow> js @ [i]))"
  by (induction gs) (auto simp: fun_eq_iff)

lemma keys_add_agent:
  "map fst (add_agent p i gs) = (if p \<in> set (map fst gs) then map fst gs else map fst gs @ [p])"
  by (induction gs) auto

lemma distinct_add_agent: "distinct (map fst gs) \<Longrightarrow> distinct (map fst (add_agent p i gs))"
  by (simp add: keys_add_agent)

lemma claimants_Suc:
  "claimants c (Suc n) q = claimants c n q @ (if c n = q then [n] else [])"
  by (simp add: claimants_def)

lemma grouped_empty: "grouped c 0 []"
  by (simp add: grouped_def claimants_def)

lemma grouped_add_agent:
  assumes "grouped c n gs"
  shows "grouped c (Suc n) (add_agent (c n) n gs)"
proof -
  have m: "map_of gs = (\<lambda>q. if claimants c n q = [] then None else Some (claimants c n q))"
    using assms by (simp add: grouped_def)
  have "map_of (add_agent (c n) n gs) q =
      (if claimants c (Suc n) q = [] then None else Some (claimants c (Suc n) q))" for q
    by (simp add: map_of_add_agent m claimants_Suc)
  then have "map_of (add_agent (c n) n gs) =
      (\<lambda>q. if claimants c (Suc n) q = [] then None else Some (claimants c (Suc n) q))"
    by (rule ext)
  moreover have "distinct (map fst (add_agent (c n) n gs))"
    using assms by (simp add: grouped_def distinct_add_agent)
  ultimately show ?thesis by (simp add: grouped_def)
qed

lemma overlapping_from_grouped:
  assumes "\<forall>k<length ips. claimed_pos e s k (ips ! k) = Some (c k)"
    and "i \<le> length ips" and "grouped c i gs"
  shows "\<exists>gs'. overlapping_from e s i (drop i ips) gs = Inr gs' \<and> grouped c (length ips) gs'"
  using assms(2,3)
proof (induction "length ips - i" arbitrary: i gs)
  case 0
  then show ?case by simp
next
  case (Suc m)
  then have lt: "i < length ips" by simp
  have d: "drop i ips = ips ! i # drop (Suc i) ips"
    using lt by (simp add: Cons_nth_drop_Suc)
  have "m = length ips - Suc i" using Suc.hyps(2) by simp
  moreover have "Suc i \<le> length ips" using lt by simp
  moreover have "grouped c (Suc i) (add_agent (c i) i gs)"
    using Suc.prems(2) by (rule grouped_add_agent)
  ultimately have "\<exists>gs'. overlapping_from e s (Suc i) (drop (Suc i) ips) (add_agent (c i) i gs) = Inr gs'
      \<and> grouped c (length ips) gs'"
    by (rule Suc.hyps(1))
  then show ?case
    using assms(1) lt by (simp add: d)
qed

lemma get_overlapping_grouped:
  assumes "\<forall>k<length ips. claimed_pos e s k (ips ! k) = Some (c k)"
  shows "\<exists>gs. get_overlapping_pos_to_agent e s ips = Inr gs \<and> grouped c (length ips) gs"
  using overlapping_from_grouped [OF assms, of 0 "[]"]
  by (simp add: get_overlapping_pos_to_agent_def grouped_empty)

lemma grouped_member:
  assumes "grouped c n gs"
  shows "(g \<in> set gs) = (snd g = claimants c n (fst g) \<and> claimants c n (fst g) \<noteq> [])"
proof -
  have m: "map_of gs = (\<lambda>q. if claimants c n q = [] then None else Some (claimants c n q))"
    and d: "distinct (map fst gs)"
    using assms by (simp_all add: grouped_def)
  have "(g \<in> set gs) = (map_of gs (fst g) = Some (snd g))"
    using map_of_eq_Some_iff [OF d, of "fst g" "snd g"] by simp
  also have "\<dots> = (snd g = claimants c n (fst g) \<and> claimants c n (fst g) \<noteq> [])"
    unfolding m by auto
  finally show ?thesis .
qed

lemma set_claimants: "set (claimants c n q) = {k. k < n \<and> c k = q}"
  by (auto simp: claimants_def)

lemma distinct_claimants: "distinct (claimants c n q)"
  by (simp add: claimants_def)

lemma long_distinct_iff:
  assumes "distinct xs" "x \<in> set xs"
  shows "(1 < length xs) = (\<exists>y\<in>set xs. y \<noteq> x)"
proof
  assume "1 < length xs"
  then have "1 < card (set xs)" using assms(1) by (simp add: distinct_card)
  then have "set xs \<noteq> {x}" by auto
  with assms(2) show "\<exists>y\<in>set xs. y \<noteq> x" by auto
next
  assume "\<exists>y\<in>set xs. y \<noteq> x"
  then obtain y where "y \<in> set xs" "y \<noteq> x" by auto
  with assms(2) have "{x, y} \<subseteq> set xs" by simp
  then have "card {x, y} \<le> card (set xs)" by (intro card_mono) simp_all
  with \<open>y \<noteq> x\<close> have "2 \<le> card (set xs)" by simp
  then show "1 < length xs" using assms(1) by (simp add: distinct_card)
qed

lemma grouped_contested:
  assumes "grouped c n gs" "j < n"
  shows "(\<exists>g\<in>set gs. 1 < length (snd g) \<and> j \<in> set (snd g)) = (\<exists>k<n. k \<noteq> j \<and> c k = c j)"
proof
  assume "\<exists>g\<in>set gs. 1 < length (snd g) \<and> j \<in> set (snd g)"
  then obtain g where g: "g \<in> set gs" "1 < length (snd g)" "j \<in> set (snd g)" by auto
  from g(1) have eq: "snd g = claimants c n (fst g)"
    using assms(1) by (simp add: grouped_member)
  from g(3) eq have cj: "c j = fst g" by (simp add: set_claimants)
  from g(2,3) eq obtain k where "k \<in> set (claimants c n (fst g))" "k \<noteq> j"
    using long_distinct_iff [OF distinct_claimants, of j c n "fst g"] by auto
  then show "\<exists>k<n. k \<noteq> j \<and> c k = c j"
    using cj by (auto simp: set_claimants)
next
  assume "\<exists>k<n. k \<noteq> j \<and> c k = c j"
  then obtain k where k: "k < n" "k \<noteq> j" "c k = c j" by auto
  let ?g = "(c j, claimants c n (c j))"
  have jin: "j \<in> set (claimants c n (c j))" using assms(2) by (simp add: set_claimants)
  then have "claimants c n (c j) \<noteq> []" by auto
  then have "?g \<in> set gs" using assms(1) by (simp add: grouped_member)
  moreover have "1 < length (claimants c n (c j))"
    using long_distinct_iff [OF distinct_claimants jin] k by (auto simp: set_claimants)
  ultimately show "\<exists>g\<in>set gs. 1 < length (snd g) \<and> j \<in> set (snd g)"
    using jin by force
qed

lemma grouped_wf:
  assumes "grouped c n gs" "g \<in> set gs"
  shows "distinct (snd g) \<and> set (snd g) \<subseteq> {..<n} \<and> snd g \<noteq> []"
  using assms by (auto simp: grouped_member distinct_claimants set_claimants)

lemma get_agent_pos_set_agent_ball: "get_agent_pos (set_agent_ball s i b) = get_agent_pos s"
proof
  fix j
  show "get_agent_pos (set_agent_ball s i b) j = get_agent_pos s j"
    by (cases "i < length (agent_list s)")
      (auto simp: get_agent_pos_def set_agent_ball_def nth_list_update list_update_beyond)
qed

lemma get_agent_pos_switch_ball: "get_agent_pos (switch_ball s a b) = get_agent_pos s"
  by (simp add: switch_ball_def Let_def get_agent_pos_set_agent_ball)

lemma ball_count_switch_ball:
  assumes "a < length (agent_list s)" "b < length (agent_list s)"
    and "get_agent_ball s a" "\<not> get_agent_ball s b"
  shows "ball_count (switch_ball s a b) = ball_count s"
proof -
  let ?s1 = "set_agent_ball s a False"
  have ne: "a \<noteq> b" using assms by auto
  have 1: "Suc (ball_count ?s1) = ball_count s"
    using assms by (simp add: ball_count_set_lose)
  have "ball_count (set_agent_ball ?s1 b True) = Suc (ball_count ?s1)"
    using assms ne
    by (intro ball_count_set_gain) (simp_all add: length_set_agent_ball get_agent_ball_set_agent_ball)
  with 1 show ?thesis
    using assms by (simp add: switch_ball_def Let_def)
qed

lemma ball_count_card:
  "ball_count s = card {i. i < length (agent_list s) \<and> get_agent_ball s i}"
  by (simp add: ball_count_def get_agent_ball_def length_filter_conv_card)

lemma holders_le_ball_count:
  assumes "distinct js" "set js \<subseteq> {..<length (agent_list s)}"
  shows "length (filter (get_agent_ball s) js) \<le> ball_count s"
proof -
  have "distinct (filter (get_agent_ball s) js)"
    using assms(1) by simp
  then have "length (filter (get_agent_ball s) js) = card (set (filter (get_agent_ball s) js))"
    by (rule distinct_card [symmetric])
  also have "\<dots> \<le> card {i. i < length (agent_list s) \<and> get_agent_ball s i}"
    using assms(2) by (intro card_mono) auto
  finally show ?thesis by (simp add: ball_count_card)
qed

lemma last_holder:
  assumes "filter (get_agent_ball s) js \<noteq> []"
  shows "last (filter (get_agent_ball s) js) \<in> set js \<and>
         get_agent_ball s (last (filter (get_agent_ball s) js))"
proof -
  have "last (filter (get_agent_ball s) js) \<in> set (filter (get_agent_ball s) js)"
    using assms by (rule last_in_set)
  then show ?thesis by simp
qed

lemma length_use_old_positions: "length (use_old_positions s js ips) = length ips"
  by (induction js arbitrary: ips) simp_all

lemma nth_use_old_positions:
  "j < length ips \<Longrightarrow>
     use_old_positions s js ips ! j = (if j \<in> set js then get_agent_pos s j else ips ! j)"
proof (induction js arbitrary: ips)
  case Nil
  then show ?case by simp
next
  case (Cons i js)
  then show ?case by (auto simp: nth_list_update)
qed

lemma use_old_positions_cong:
  "get_agent_pos s' = get_agent_pos s \<Longrightarrow> use_old_positions s' js ips = use_old_positions s js ips"
  by (induction js arbitrary: ips) simp_all

lemma update_ball_possession_eq:
  "update_ball_possession s js rnd =
     (if filter (get_agent_ball s) js = [] then (Inr False, s, rnd)
      else if filter (\<lambda>i. \<not> get_agent_ball s i) js = [] then (Inl IndexError, s, rnd)
      else (Inr True, switch_ball s (ball_holder s js) (chosen_agent s js rnd), stl rnd))"
  by (simp add: update_ball_possession_def random_choice_def chosen_agent_def ball_holder_def)

lemma chosen_agent_in:
  "filter (\<lambda>i. \<not> get_agent_ball s i) js \<noteq> [] \<Longrightarrow>
     chosen_agent s js rnd \<in> set js \<and> \<not> get_agent_ball s (chosen_agent s js rnd)"
proof -
  assume ne: "filter (\<lambda>i. \<not> get_agent_ball s i) js \<noteq> []"
  have "chosen_agent s js rnd \<in> set (filter (\<lambda>i. \<not> get_agent_ball s i) js)"
    unfolding chosen_agent_def using ne by (intro nth_mem) simp
  then show ?thesis by simp
qed

lemma ball_holder_in:
  "filter (get_agent_ball s) js \<noteq> [] \<Longrightarrow>
     ball_holder s js \<in> set js \<and> get_agent_ball s (ball_holder s js)"
  unfolding ball_holder_def by (rule last_holder)

lemma resolve_groups_Cons:
  "resolve_groups (g # gs) ips hs det s rnd =
     (if 1 < length (snd g)
      then (if hs then resolve_groups gs (use_old_positions s (snd g) ips) True True s rnd
            else if filter (get_agent_ball s) (snd g) = []
            then resolve_groups gs (use_old_positions s (snd g) ips) False True s rnd
            else if filter (\<lambda>i. \<not> get_agent_ball s i) (snd g) = []
            then (Inl IndexError, s, rnd)
            else resolve_groups gs (use_old_positions s (snd g) ips) True True
                   (switch_ball s (ball_holder s (snd g)) (chosen_agent s (snd g) rnd)) (stl rnd))
      else resolve_groups gs ips hs det s rnd)"
  by (simp add: update_ball_possession_eq Let_def
      use_old_positions_cong [OF get_agent_pos_switch_ball])

declare resolve_groups.simps(2) [simp del]

lemma resolve_groups_switched:
  "snd (resolve_groups gs ips True det s rnd) = (s, rnd) \<and>
   (\<exists>ips'. fst (resolve_groups gs ips True det s rnd)
            = Inr (ips', True, det \<or> (\<exists>g\<in>set gs. 1 < length (snd g))))"
proof (induction gs arbitrary: ips det)
  case Nil
  then show ?case by simp
next
  case (Cons g gs)
  show ?case
  proof (cases "1 < length (snd g)")
    case True
    then show ?thesis
      using Cons.IH [of "use_old_positions s (snd g) ips" True]
      by (simp add: resolve_groups_Cons)
  next
    case False
    then show ?thesis
      using Cons.IH [of ips det] by (simp add: resolve_groups_Cons)
  qed
qed

lemma resolve_groups_state:
  "fst (snd (resolve_groups gs ips hs det s rnd)) = s \<or>
   (\<not> hs \<and> (\<exists>g\<in>set gs. 1 < length (snd g) \<and>
       filter (get_agent_ball s) (snd g) \<noteq> [] \<and>
       filter (\<lambda>i. \<not> get_agent_ball s i) (snd g) \<noteq> [] \<and>
       fst (snd (resolve_groups gs ips hs det s rnd))
         = switch_ball s (ball_holder s (snd g)) (chosen_agent s (snd g) rnd)))"
proof (induction gs arbitrary: ips hs det)
  case Nil
  then show ?case by simp
next
  case (Cons g gs)
  show ?case
  proof (cases "1 < length (snd g) \<and> \<not> hs \<and> filter (get_agent_ball s) (snd g) \<noteq> []
                \<and> filter (\<lambda>i. \<not> get_agent_ball s i) (snd g) \<noteq> []")
    case True
    let ?s1 = "switch_ball s (ball_holder s (snd g)) (chosen_agent s (snd g) rnd)"
    have "fst (snd (resolve_groups (g # gs) ips hs det s rnd)) = ?s1"
      using True
      resolve_groups_switched [of gs "use_old_positions s (snd g) ips" True ?s1 "stl rnd"]
      by (simp add: resolve_groups_Cons)
    then show ?thesis using True by auto
  next
    case False
    then show ?thesis
      using Cons.IH [of "use_old_positions s (snd g) ips" hs True]
        Cons.IH [of "use_old_positions s (snd g) ips" True True]
        Cons.IH [of "use_old_positions s (snd g) ips" False True]
        Cons.IH [of ips hs det]
      by (auto simp: resolve_groups_Cons)
  qed
qed

lemma resolve_groups_intended:
  assumes "fst (resolve_groups gs ips hs det s rnd) = Inr v"
  shows "length (fst v) = length ips \<and>
         (\<forall>j<length ips. fst v ! j =
            (if \<exists>g\<in>set gs. 1 < length (snd g) \<and> j \<in> set (snd g) then get_agent_pos s j
             else ips ! j)) \<and>
         snd (snd v) = (det \<or> (\<exists>g\<in>set gs. 1 < length (snd g))) \<and>
         (hs \<longrightarrow> fst (snd v)) \<and>
         (\<not> fst (snd v) \<longrightarrow> fst (snd (resolve_groups gs ips hs det s rnd)) = s)"
  using assms
proof (induction gs arbitrary: ips hs det s rnd)
  case Nil
  then show ?case by auto
next
  case (Cons g gs)
  show ?case
  proof (cases "1 < length (snd g)")
    case False
    with Cons.prems have "fst (resolve_groups gs ips hs det s rnd) = Inr v"
      by (simp add: resolve_groups_Cons)
    from Cons.IH [OF this] False show ?thesis
      by (simp add: resolve_groups_Cons)
  next
    case True
    let ?ips1 = "use_old_positions s (snd g) ips"
    have "\<exists>hs1 s1 rnd1. resolve_groups (g # gs) ips hs det s rnd
            = resolve_groups gs ?ips1 hs1 True s1 rnd1 \<and>
          get_agent_pos s1 = get_agent_pos s \<and> (hs \<longrightarrow> hs1) \<and> (\<not> hs1 \<longrightarrow> s1 = s)"
    proof (cases "hs \<or> filter (get_agent_ball s) (snd g) = []")
      case True
      then show ?thesis using \<open>1 < length (snd g)\<close>
        by (auto simp: resolve_groups_Cons)
    next
      case False
      with Cons.prems True have "filter (\<lambda>i. \<not> get_agent_ball s i) (snd g) \<noteq> []"
        by (auto simp: resolve_groups_Cons)
      with False True have "resolve_groups (g # gs) ips hs det s rnd
          = resolve_groups gs ?ips1 True True
              (switch_ball s (ball_holder s (snd g)) (chosen_agent s (snd g) rnd)) (stl rnd)"
        by (simp add: resolve_groups_Cons)
      moreover have "get_agent_pos (switch_ball s (ball_holder s (snd g))
          (chosen_agent s (snd g) rnd)) = get_agent_pos s"
        by (rule get_agent_pos_switch_ball)
      ultimately show ?thesis by blast
    qed
    then obtain hs1 s1 rnd1 where
      eq: "resolve_groups (g # gs) ips hs det s rnd = resolve_groups gs ?ips1 hs1 True s1 rnd1"
      and p: "get_agent_pos s1 = get_agent_pos s" and h: "hs \<longrightarrow> hs1" "\<not> hs1 \<longrightarrow> s1 = s"
      by blast
    from Cons.prems eq have "fst (resolve_groups gs ?ips1 hs1 True s1 rnd1) = Inr v" by simp
    from Cons.IH [OF this] have
      ih: "length (fst v) = length ?ips1"
        "\<forall>j<length ?ips1. fst v ! j =
            (if \<exists>g\<in>set gs. 1 < length (snd g) \<and> j \<in> set (snd g) then get_agent_pos s1 j
             else ?ips1 ! j)"
        "snd (snd v) = (True \<or> (\<exists>g\<in>set gs. 1 < length (snd g)))"
        "hs1 \<longrightarrow> fst (snd v)"
        "\<not> fst (snd v) \<longrightarrow> fst (snd (resolve_groups gs ?ips1 hs1 True s1 rnd1)) = s1"
      by blast+
    have 1: "length (fst v) = length ips"
      using ih(1) by (simp add: length_use_old_positions)
    have 2: "\<forall>j<length ips. fst v ! j =
            (if \<exists>g'\<in>set (g # gs). 1 < length (snd g') \<and> j \<in> set (snd g') then get_agent_pos s j
             else ips ! j)"
      using ih(2) True by (auto simp: length_use_old_positions nth_use_old_positions p)
    have 3: "snd (snd v) = (det \<or> (\<exists>g'\<in>set (g # gs). 1 < length (snd g')))"
      using ih(3) True by auto
    have 4: "hs \<longrightarrow> fst (snd v)" using ih(4) h(1) by blast
    have 5: "\<not> fst (snd v) \<longrightarrow> fst (snd (resolve_groups (g # gs) ips hs det s rnd)) = s"
      using ih(4,5) h(2) eq by auto
    from 1 2 3 4 5 show ?thesis by blast
  qed
qed

lemma resolve_groups_no_error:
  assumes "\<forall>g\<in>set gs. distinct (snd g) \<and> set (snd g) \<subseteq> {..<length (agent_list s)}"
    and "ball_count s \<le> 1"
  shows "(\<exists>v. fst (resolve_groups gs ips hs det s rnd) = Inr v) \<and>
         ball_count (fst (snd (resolve_groups gs ips hs det s rnd))) = ball_count s \<and>
         length (agent_list (fst (snd (resolve_groups gs ips hs det s rnd)))) = length (agent_list s)"
  using assms
proof (induction gs arbitrary: ips hs det s rnd)
  case Nil
  then show ?case by simp
next
  case (Cons g gs)
  have wf: "\<forall>g\<in>set gs. distinct (snd g) \<and> set (snd g) \<subseteq> {..<length (agent_list s)}"
    and wg: "distinct (snd g)" "set (snd g) \<subseteq> {..<length (agent_list s)}"
    using Cons.prems(1) by simp_all
  show ?case
  proof (cases "1 < length (snd g) \<and> \<not> hs \<and> filter (get_agent_ball s) (snd g) \<noteq> []")
    case False
    then show ?thesis
      using Cons.IH [OF wf Cons.prems(2)] by (auto simp: resolve_groups_Cons)
  next
    case True
    let ?h = "ball_holder s (snd g)" and ?c = "chosen_agent s (snd g) rnd"
    let ?s1 = "switch_ball s ?h ?c"
    have "length (filter (get_agent_ball s) (snd g)) \<le> 1"
      using holders_le_ball_count [OF wg] Cons.prems(2) by simp
    moreover have "length (filter (get_agent_ball s) (snd g))
        + length (filter (\<lambda>i. \<not> get_agent_ball s i) (snd g)) = length (snd g)"
      by (rule sum_length_filter_compl)
    ultimately have nb: "filter (\<lambda>i. \<not> get_agent_ball s i) (snd g) \<noteq> []"
      using True by auto
    have h: "?h \<in> set (snd g)" "get_agent_ball s ?h"
      using True ball_holder_in by blast+
    have c: "?c \<in> set (snd g)" "\<not> get_agent_ball s ?c"
      using nb chosen_agent_in by blast+
    have bc: "ball_count ?s1 = ball_count s"
      using h c wg(2) by (intro ball_count_switch_ball) auto
    have len: "length (agent_list ?s1) = length (agent_list s)"
      by (rule length_switch_ball)
    have eq: "resolve_groups (g # gs) ips hs det s rnd
        = resolve_groups gs (use_old_positions s (snd g) ips) True True ?s1 (stl rnd)"
      using True nb by (simp add: resolve_groups_Cons)
    have "\<forall>g\<in>set gs. distinct (snd g) \<and> set (snd g) \<subseteq> {..<length (agent_list ?s1)}"
      using wf len by simp
    moreover have "ball_count ?s1 \<le> 1" using bc Cons.prems(2) by simp
    ultimately show ?thesis
      unfolding eq using Cons.IH [of ?s1] bc len by simp
  qed
qed

lemma claimed_pos_cong:
  assumes "get_agent_pos s' = get_agent_pos s"
  shows "claimed_pos e s' = claimed_pos e s"
proof (intro ext)
  fix k p
  show "claimed_pos e s' k p = claimed_pos e s k p"
    by (simp add: claimed_pos_def assms split: option.splits)
qed

lemma contested_cong:
  assumes "get_agent_pos s' = get_agent_pos s"
  shows "contested e s' = contested e s"
proof (intro ext)
  fix ips j
  show "contested e s' ips j = contested e s ips j"
    by (simp add: contested_def claimed_pos_cong [OF assms])
qed

lemma pass_cong:
  assumes "get_agent_pos s' = get_agent_pos s"
  shows "pass e s' = pass e s"
proof (intro ext)
  fix ips
  show "pass e s' ips = pass e s ips"
    by (simp add: pass_def contested_cong [OF assms] assms)
qed


lemma claimed_pos_not_None:
  "get_agent_pos s k \<noteq> None \<Longrightarrow> claimed_pos e s k p \<noteq> None"
  by (auto simp: claimed_pos_def split: option.splits)


lemma length_pass: "length (pass e s ips) = length ips"
  by (simp add: pass_def)

lemma nth_pass:
  "j < length ips \<Longrightarrow>
     pass e s ips ! j = (if contested e s ips j then get_agent_pos s j else ips ! j)"
  by (simp add: pass_def)

lemma pass_fixed: "\<forall>j<length ips. \<not> contested e s ips j \<Longrightarrow> pass e s ips = ips"
  by (rule nth_equalityI) (simp_all add: length_pass nth_pass)

lemma one_pass:
  assumes len: "length ips = length (agent_list s)"
    and some: "\<forall>k<length (agent_list s). get_agent_pos s k \<noteq> None"
    and bc: "ball_count s \<le> 1"
  shows "\<exists>gs hs' s' rnd'.
           get_overlapping_pos_to_agent e s ips = Inr gs \<and>
           resolve_groups gs ips hs False s rnd
             = (Inr (pass e s ips, hs', \<exists>j<length ips. contested e s ips j), s', rnd') \<and>
           (\<exists>g\<in>set gs. 1 < length (snd g)) = (\<exists>j<length ips. contested e s ips j) \<and>
           get_agent_pos s' = get_agent_pos s \<and>
           length (agent_list s') = length (agent_list s) \<and>
           ball_count s' = ball_count s \<and> (hs \<longrightarrow> hs') \<and> (\<not> hs' \<longrightarrow> s' = s)"
proof -
  define c where "c k = the (claimed_pos e s k (ips ! k))" for k
  have cl: "\<forall>k<length ips. claimed_pos e s k (ips ! k) = Some (c k)"
  proof (intro allI impI)
    fix k
    assume "k < length ips"
    then have "get_agent_pos s k \<noteq> None" using some len by simp
    then have "claimed_pos e s k (ips ! k) \<noteq> None" by (rule claimed_pos_not_None)
    then show "claimed_pos e s k (ips ! k) = Some (c k)" by (simp add: c_def)
  qed
  from get_overlapping_grouped [OF cl] obtain gs where
    gs: "get_overlapping_pos_to_agent e s ips = Inr gs" and gr: "grouped c (length ips) gs"
    by blast
  have wf: "\<forall>g\<in>set gs. distinct (snd g) \<and> set (snd g) \<subseteq> {..<length (agent_list s)}"
    using grouped_wf [OF gr] len by auto
  have cont: "(\<exists>g\<in>set gs. 1 < length (snd g) \<and> j \<in> set (snd g)) = contested e s ips j"
    if "j < length ips" for j
  proof -
    have "(\<exists>k<length ips. k \<noteq> j \<and> c k = c j) = contested e s ips j"
      using cl that by (auto simp: contested_def)
    then show ?thesis using grouped_contested [OF gr that] by simp
  qed
  have anyc: "(\<exists>g\<in>set gs. 1 < length (snd g)) = (\<exists>j<length ips. contested e s ips j)"
  proof
    assume "\<exists>g\<in>set gs. 1 < length (snd g)"
    then obtain g where g: "g \<in> set gs" "1 < length (snd g)" by auto
    from grouped_wf [OF gr g(1)] obtain j where "j \<in> set (snd g)" "j < length ips"
      by (cases "snd g") auto
    with g cont show "\<exists>j<length ips. contested e s ips j" by blast
  next
    assume "\<exists>j<length ips. contested e s ips j"
    then show "\<exists>g\<in>set gs. 1 < length (snd g)" using cont by blast
  qed
  let ?r = "resolve_groups gs ips hs False s rnd"
  from resolve_groups_no_error [OF wf bc, of ips hs False rnd] obtain v where
    v: "fst ?r = Inr v" and bc': "ball_count (fst (snd ?r)) = ball_count s"
    and len': "length (agent_list (fst (snd ?r))) = length (agent_list s)"
    by blast
  from resolve_groups_intended [OF v] have
    i1: "length (fst v) = length ips"
    and i2: "\<forall>j<length ips. fst v ! j =
            (if \<exists>g\<in>set gs. 1 < length (snd g) \<and> j \<in> set (snd g) then get_agent_pos s j
             else ips ! j)"
    and i3: "snd (snd v) = (False \<or> (\<exists>g\<in>set gs. 1 < length (snd g)))"
    and i4: "hs \<longrightarrow> fst (snd v)"
    and i5: "\<not> fst (snd v) \<longrightarrow> fst (snd ?r) = s"
    by blast+
  have p: "fst v = pass e s ips"
  proof (rule nth_equalityI)
    show "length (fst v) = length (pass e s ips)" by (simp add: i1 length_pass)
  next
    fix j
    assume "j < length (fst v)"
    then have j: "j < length ips" by (simp add: i1)
    show "fst v ! j = pass e s ips ! j"
      using i2 j cont [OF j] by (simp add: nth_pass)
  qed
  have pos: "get_agent_pos (fst (snd ?r)) = get_agent_pos s"
    using resolve_groups_state [of gs ips hs False s rnd]
    by (auto simp: get_agent_pos_switch_ball)
  have "?r = (Inr (pass e s ips, fst (snd v), \<exists>j<length ips. contested e s ips j),
              fst (snd ?r), snd (snd ?r))"
    using v p i3 anyc by (simp add: prod_eq_iff)
  with gs anyc pos len' bc' i4 i5 show ?thesis by blast
qed

lemma detect_overlap_step:
  assumes len: "length ips = length (agent_list s)"
    and some: "\<forall>k<length (agent_list s). get_agent_pos s k \<noteq> None"
    and bc: "ball_count s \<le> 1"
  shows "\<exists>hs' s' rnd'.
           detect_overlap (Suc n) e ips hs s rnd =
             (if \<exists>j<length ips. contested e s ips j
              then detect_overlap n e (pass e s ips) hs' s' rnd'
              else Some (Inr ips, s', rnd')) \<and>
           get_agent_pos s' = get_agent_pos s \<and>
           length (agent_list s') = length (agent_list s) \<and>
           ball_count s' = ball_count s \<and> (hs \<longrightarrow> hs') \<and> (\<not> hs' \<longrightarrow> s' = s)"
proof -
  from one_pass [OF assms, of e hs rnd] obtain gs hs' s' rnd' where
    gs: "get_overlapping_pos_to_agent e s ips = Inr gs"
    and r: "resolve_groups gs ips hs False s rnd
             = (Inr (pass e s ips, hs', \<exists>j<length ips. contested e s ips j), s', rnd')"
    and rest: "get_agent_pos s' = get_agent_pos s"
      "length (agent_list s') = length (agent_list s)"
      "ball_count s' = ball_count s" "hs \<longrightarrow> hs'" "\<not> hs' \<longrightarrow> s' = s"
    by blast
  have "detect_overlap (Suc n) e ips hs s rnd =
             (if \<exists>j<length ips. contested e s ips j
              then detect_overlap n e (pass e s ips) hs' s' rnd'
              else Some (Inr ips, s', rnd'))"
    using gs r by (auto simp: Let_def pass_fixed)
  with rest show ?thesis by blast
qed

declare detect_overlap.simps(2) [simp del]











lemma detect_overlap_result:
  assumes "length ips = length (agent_list s)"
    and "\<forall>k<length (agent_list s). get_agent_pos s k \<noteq> None"
    and "ball_count s \<le> 1"
    and "detect_overlap n e ips hs s rnd = Some r"
  shows "\<exists>final. fst r = Inr final \<and> length final = length ips \<and>
           (\<forall>j<length ips. \<not> contested e s final j) \<and>
           (\<forall>j<length ips. final ! j = ips ! j \<or> final ! j = get_agent_pos s j) \<and>
           get_agent_pos (fst (snd r)) = get_agent_pos s \<and>
           length (agent_list (fst (snd r))) = length (agent_list s) \<and>
           ball_count (fst (snd r)) = ball_count s"
  using assms
proof (induction n arbitrary: ips hs s rnd)
  case 0
  then show ?case by simp
next
  case (Suc n)
  from detect_overlap_step [OF Suc.prems(1-3), of n e hs rnd] obtain hs' s' rnd' where
    step: "detect_overlap (Suc n) e ips hs s rnd =
             (if \<exists>j<length ips. contested e s ips j
              then detect_overlap n e (pass e s ips) hs' s' rnd'
              else Some (Inr ips, s', rnd'))"
    and p: "get_agent_pos s' = get_agent_pos s"
    and l: "length (agent_list s') = length (agent_list s)"
    and b: "ball_count s' = ball_count s"
    by blast
  show ?case
  proof (cases "\<exists>j<length ips. contested e s ips j")
    case False
    then have "detect_overlap (Suc n) e ips hs s rnd = Some (Inr ips, s', rnd')"
      by (simp only: step if_False simp_thms)
    with Suc.prems(4) have "r = (Inr ips, s', rnd')" by simp
    with False p l b show ?thesis by simp
  next
    case True
    then have "detect_overlap (Suc n) e ips hs s rnd
        = detect_overlap n e (pass e s ips) hs' s' rnd'"
      by (simp only: step if_True simp_thms)
    with Suc.prems(4) have d: "detect_overlap n e (pass e s ips) hs' s' rnd' = Some r"
      by simp
    have "\<exists>final. fst r = Inr final \<and> length final = length (pass e s ips) \<and>
           (\<forall>j<length (pass e s ips). \<not> contested e s' final j) \<and>
           (\<forall>j<length (pass e s ips). final ! j = pass e s ips ! j \<or> final ! j = get_agent_pos s' j) \<and>
           get_agent_pos (fst (snd r)) = get_agent_pos s' \<and>
           length (agent_list (fst (snd r))) = length (agent_list s') \<and>
           ball_count (fst (snd r)) = ball_count s'"
      using Suc.prems(1-3) d
      by (intro Suc.IH) (simp_all add: length_pass p l b)
    then obtain final where f: "fst r = Inr final" "length final = length ips"
      "\<forall>j<length ips. \<not> contested e s final j"
      "\<forall>j<length ips. final ! j = pass e s ips ! j \<or> final ! j = get_agent_pos s j"
      "get_agent_pos (fst (snd r)) = get_agent_pos s"
      "length (agent_list (fst (snd r))) = length (agent_list s)"
      "ball_count (fst (snd r)) = ball_count s"
      by (auto simp: length_pass p l b contested_cong [OF p])
    have "\<forall>j<length ips. final ! j = ips ! j \<or> final ! j = get_agent_pos s j"
      using f(4) by (auto simp: nth_pass split: if_splits)
    with f show ?thesis by blast
  qed
qed





lemma get_overlapping_cong:
  assumes "get_agent_pos s' = get_agent_pos s"
  shows "get_overlapping_pos_to_agent e s' ips = get_overlapping_pos_to_agent e s ips"
proof -
  have "overlapping_from e s' i ps gs = overlapping_from e s i ps gs" for i ps gs
    by (induction ps arbitrary: i gs)
      (simp_all add: claimed_pos_cong [OF assms] split: option.splits)
  then show ?thesis by (simp add: get_overlapping_pos_to_agent_def)
qed



lemma two_Suc: "(2::nat) = Suc (Suc 0)"
  by simp

lemmas ex_simps = ex_state_row_def ex_state_two_balls_def ex_agent_def ex_env_def ex_map_def
  ex_options_def get_agent_pos_def get_agent_ball_def set_agent_ball_def switch_ball_def
  claimed_pos_def get_overlapping_pos_to_agent_def update_ball_possession_def random_choice_def
  resolve_groups.simps detect_overlap.simps Let_def





text \<open>
  The loop is called from \<^verbatim>\<open>take_action\<close> only, on states with one ball. On a state
  with two balls, which no run of the environment shows, two holders that claim the same
  tile make \<^verbatim>\<open>random.choice\<close> draw from an empty list and the loop ends with IndexError.
\<close>

lemma overlap_resolution_two_balls:
  "length [Some (1, 0), Some (1::int, 0::int)] = length (agent_list ex_state_two_balls) \<and>
   distinct (map pos (agent_list ex_state_two_balls)) \<and>
   detect_overlap 2 (ex_env 1) [Some (1, 0), Some (1, 0)] False ex_state_two_balls (sconst 0)
     = Some (Inl IndexError, ex_state_two_balls, sconst 0) \<and>
   update_agent_pos 2 (ex_env 1) [Some (1, 0), Some (1, 0)] ex_state_two_balls (sconst 0)
     = Some (Inl IndexError, ex_state_two_balls, sconst 0)"
proof -
  have run: "detect_overlap 2 (ex_env 1) [Some (1, 0), Some (1, 0)] False ex_state_two_balls
      (sconst 0) = Some (Inl IndexError, ex_state_two_balls, sconst 0)"
    unfolding two_Suc by (simp add: ex_simps)
  then have "update_agent_pos 2 (ex_env 1) [Some (1, 0), Some (1, 0)] ex_state_two_balls (sconst 0)
     = Some (Inl IndexError, ex_state_two_balls, sconst 0)"
    by (simp add: update_agent_pos_def)
  with run show ?thesis
    by (simp add: ex_state_two_balls_def ex_agent_def)
qed

subsection \<open>The invariant of the reachable states\<close>

lemma map_update_same: "(map f xs)[i := f (xs ! i)] = map f xs"
  by (cases "i < length xs") (simp_all add: list_update_beyond nth_map [symmetric] del: nth_map)

lemma pos_set_agent_action:
  "map pos (agent_list (set_agent_action s i a)) = map pos (agent_list s)"
  using map_update_same [of pos "agent_list s" i]
  by (simp add: set_agent_action_def map_update)

lemma ball_set_agent_action:
  "map ball (agent_list (set_agent_action s i a)) = map ball (agent_list s)"
  using map_update_same [of ball "agent_list s" i]
  by (simp add: set_agent_action_def map_update)

lemma ball_set_agent_pos:
  "map ball (agent_list (set_agent_pos s i p)) = map ball (agent_list s)"
  using map_update_same [of ball "agent_list s" i]
  by (simp add: set_agent_pos_def map_update)

lemma ball_count_map: "ball_count s = length (filter (\<lambda>b. b) (map ball (agent_list s)))"
  by (simp add: ball_count_def filter_map comp_def)

lemma get_agent_pos_map: "get_agent_pos s k = (if k < length (agent_list s) then map pos (agent_list s) ! k else get_agent_pos s k)"
  by (simp add: get_agent_pos_def)

lemma valid_state_cong:
  assumes "map pos (agent_list s') = map pos (agent_list s)"
    and "map ball (agent_list s') = map ball (agent_list s)"
  shows "valid_state e s' = valid_state e s"
proof -
  have len: "length (agent_list s') = length (agent_list s)"
    using assms(1) by (rule map_eq_imp_length_eq)
  have "get_agent_pos s' k = get_agent_pos s k" if "k < length (agent_list s)" for k
  proof -
    have "map pos (agent_list s') ! k = map pos (agent_list s) ! k" using assms(1) by simp
    then show ?thesis using that len by (simp add: get_agent_pos_def)
  qed
  then show ?thesis
    using assms len by (simp add: valid_state_def ball_count_map)
qed

lemma intended_from_frame:
  "map pos (agent_list (fst (snd (intended_from e acts tks acc s rnd)))) = map pos (agent_list s) \<and>
   map ball (agent_list (fst (snd (intended_from e acts tks acc s rnd)))) = map ball (agent_list s)"
proof (induction tks arbitrary: acc s rnd)
  case Nil
  then show ?case by simp
next
  case (Cons tk tks)
  show ?case
    by (simp add: Let_def Cons.IH pos_set_agent_action ball_set_agent_action
        split: sum.splits option.splits)
qed

lemma get_agent_pos_set_agent_action:
  "get_agent_pos (set_agent_action s i a) = get_agent_pos s"
proof
  fix j
  show "get_agent_pos (set_agent_action s i a) j = get_agent_pos s j"
    by (cases "i < length (agent_list s)")
      (auto simp: get_agent_pos_def set_agent_action_def nth_list_update list_update_beyond)
qed

lemma intended_from_result:
  assumes "fst (intended_from e acts tks acc s rnd) = Inr ips"
  shows "\<exists>new. ips = acc @ new \<and> length new = length tks \<and>
           (\<forall>m<length tks.
              settled e s (get_agent_index (options e) (fst (tks ! m)) (snd (tks ! m))) (new ! m))"
  using assms
proof (induction tks arbitrary: acc s rnd)
  case Nil
  then show ?case by simp
next
  case (Cons tk tks)
  let ?i = "get_agent_index (options e) (fst tk) (snd tk)"
  let ?r = "case fst tk of
              PLAYER \<Rightarrow> (if snd tk < length acts then Inr (acts ! snd tk) else Inl IndexError, rnd)
            | COMPUTER \<Rightarrow> get_computer_action e s (snd tk) rnd"
  from Cons.prems obtain a q where a: "fst ?r = Inr a" and q: "get_agent_pos s ?i = Some q"
    by (auto simp: Let_def split: sum.splits option.splits)
  let ?s1 = "set_agent_action s ?i (Some a)"
  let ?ip = "if get_moved_pos q a \<in> set (walkable (map_data e)) then Some (get_moved_pos q a)
             else Some q"
  have step: "intended_from e acts (tk # tks) acc s rnd
      = intended_from e acts tks (acc @ [?ip]) ?s1 (snd ?r)"
    using a q by (simp add: Let_def)
  with Cons.prems have "fst (intended_from e acts tks (acc @ [?ip]) ?s1 (snd ?r)) = Inr ips"
    by simp
  from Cons.IH [OF this] obtain new where new: "ips = (acc @ [?ip]) @ new"
    "length new = length tks"
    "\<forall>m<length tks.
        settled e ?s1 (get_agent_index (options e) (fst (tks ! m)) (snd (tks ! m))) (new ! m)"
    by blast
  have s0: "settled e s ?i ?ip"
    unfolding settled_def using q by (cases "get_moved_pos q a \<in> set (walkable (map_data e))") auto
  have "\<forall>m<length (tk # tks).
      settled e s (get_agent_index (options e) (fst ((tk # tks) ! m)) (snd ((tk # tks) ! m)))
        ((?ip # new) ! m)"
  proof (intro allI impI)
    fix m
    assume "m < length (tk # tks)"
    then show "settled e s (get_agent_index (options e) (fst ((tk # tks) ! m)) (snd ((tk # tks) ! m)))
        ((?ip # new) ! m)"
      using s0 new(3) by (cases m) (simp_all add: settled_def get_agent_pos_set_agent_action)
  qed
  with new(1,2) show ?case
    by (intro exI [of _ "?ip # new"]) simp
qed

lemma get_intended_pos_result:
  assumes "fst (get_intended_pos e acts s rnd) = Inr ips"
  shows "length ips = get_agent_size (options e) \<and>
         (\<forall>j<get_agent_size (options e). settled e s j (ips ! j))"
proof -
  from intended_from_result [OF assms [unfolded get_intended_pos_def]]
  obtain new where new: "ips = [] @ new" "length new = length (team_agents (options e))"
    "\<forall>m<length (team_agents (options e)).
        settled e s (get_agent_index (options e) (fst (team_agents (options e) ! m))
                       (snd (team_agents (options e) ! m))) (new ! m)"
    by blast
  then show ?thesis
    by (simp add: length_team_agents index_team_agents_nth)
qed

lemma get_agent_pos_set_agent_pos:
  "get_agent_pos (set_agent_pos s i p) k =
     (if k = i \<and> i < length (agent_list s) then p else get_agent_pos s k)"
  by (cases "i < length (agent_list s)")
    (auto simp: get_agent_pos_def set_agent_pos_def nth_list_update list_update_beyond)

lemma length_set_agent_pos: "length (agent_list (set_agent_pos s i p)) = length (agent_list s)"
  by (simp add: set_agent_pos_def)

lemma commit_from_frame:
  "length (agent_list (commit_from i ps s)) = length (agent_list s) \<and>
   map ball (agent_list (commit_from i ps s)) = map ball (agent_list s)"
  by (induction ps arbitrary: i s) (simp_all add: length_set_agent_pos ball_set_agent_pos)

lemma get_agent_pos_commit_from:
  "get_agent_pos (commit_from i ps s) k =
     (if i \<le> k \<and> k < i + length ps \<and> k < length (agent_list s) then ps ! (k - i)
      else get_agent_pos s k)"
proof (induction ps arbitrary: i s)
  case Nil
  then show ?case by auto
next
  case (Cons p ps)
  show ?case
    by (auto simp: Cons.IH length_set_agent_pos get_agent_pos_set_agent_pos nth_Cons'
        Suc_diff_le)
qed

lemma claimed_pos_settled: "settled e s j ip \<Longrightarrow> claimed_pos e s j ip = ip"
  by (auto simp: settled_def claimed_pos_def)

lemma update_agent_pos_valid:
  assumes v: "valid_state e s"
    and len: "length ips = length (agent_list s)"
    and st: "\<forall>j<length ips. settled e s j (ips ! j)"
    and u: "update_agent_pos n e ips s rnd = Some u"
  shows "fst u = Inr () \<and> valid_state e (fst (snd u))"
proof -
  have some: "\<forall>k<length (agent_list s). get_agent_pos s k \<noteq> None"
    and bc: "ball_count s \<le> 1" and bc1: "ball_count s = 1"
    and sz: "length (agent_list s) = get_agent_size (options e)"
    using v by (simp_all add: valid_state_def)
  from u obtain r where r: "detect_overlap n e ips False s rnd = Some r"
    by (auto simp: update_agent_pos_def split: option.splits)
  from detect_overlap_result [OF len some bc r] obtain final where
    f: "fst r = Inr final" "length final = length ips"
      "\<forall>j<length ips. \<not> contested e s final j"
      "\<forall>j<length ips. final ! j = ips ! j \<or> final ! j = get_agent_pos s j"
    and p: "get_agent_pos (fst (snd r)) = get_agent_pos s"
    and l: "length (agent_list (fst (snd r))) = length (agent_list s)"
    and b: "ball_count (fst (snd r)) = ball_count s"
    by blast
  let ?s1 = "fst (snd r)"
  let ?s2 = "commit_from 0 final ?s1"
  have ueq: "u = (Inr (), ?s2, snd (snd r))"
    using u r f(1) by (simp add: update_agent_pos_def)
  have fs: "settled e s j (final ! j)" if "j < length ips" for j
  proof -
    from some len that obtain q where "get_agent_pos s j = Some q" by auto
    then have "settled e s j (get_agent_pos s j)" by (simp add: settled_def)
    with f(4) st that show ?thesis by auto
  qed
  have ne: "final ! j \<noteq> final ! k" if "j < length ips" "k < length ips" "j \<noteq> k" for j k
  proof
    assume "final ! j = final ! k"
    then have "claimed_pos e s k (final ! k) = claimed_pos e s j (final ! j)"
      using fs [OF that(1)] fs [OF that(2)] by (simp add: claimed_pos_settled)
    then have "contested e s final j"
      using that f(2) by (auto simp: contested_def)
    with f(3) that(1) show False by simp
  qed
  have l2: "length (agent_list ?s2) = length (agent_list s)"
    using commit_from_frame [of 0 final ?s1] l by simp
  have gp: "get_agent_pos ?s2 k = final ! k" if "k < length (agent_list s)" for k
    using that f(2) len l by (simp add: get_agent_pos_commit_from)
  have mp: "map pos (agent_list ?s2) = final"
  proof (rule nth_equalityI)
    show "length (map pos (agent_list ?s2)) = length final" using l2 f(2) len by simp
  next
    fix k
    assume "k < length (map pos (agent_list ?s2))"
    then have k: "k < length (agent_list s)" using l2 by simp
    then have "map pos (agent_list ?s2) ! k = get_agent_pos ?s2 k"
      using l2 by (simp add: get_agent_pos_def)
    then show "map pos (agent_list ?s2) ! k = final ! k" using gp [OF k] by simp
  qed
  have d: "distinct (map pos (agent_list ?s2))"
    unfolding mp using ne f(2) by (auto simp: distinct_conv_nth)
  have bc2: "ball_count ?s2 = 1"
  proof -
    have "ball_count ?s2 = ball_count ?s1"
      using commit_from_frame [of 0 final ?s1] by (simp add: ball_count_map)
    then show ?thesis using b bc1 by simp
  qed
  have sm: "\<forall>k<length (agent_list ?s2). get_agent_pos ?s2 k \<noteq> None"
  proof (intro allI impI)
    fix k
    assume "k < length (agent_list ?s2)"
    then have k: "k < length ips" using l2 len by simp
    from fs [OF k] have "final ! k \<noteq> None" by (auto simp: settled_def)
    then show "get_agent_pos ?s2 k \<noteq> None" using gp k len by simp
  qed
  have "valid_state e ?s2"
    using l2 sz sm d bc2 by (simp add: valid_state_def)
  with ueq show ?thesis by simp
qed

lemma agent_list_increase_time_step: "agent_list (increase_time_step s) = agent_list s"
  by (simp add: increase_time_step_def)

lemma valid_state_increase_time_step:
  "valid_state e (increase_time_step s) = valid_state e s"
  by (rule valid_state_cong) (simp_all add: agent_list_increase_time_step)

lemma take_action_valid:
  assumes v: "valid_state e s" and t: "take_action n e a s rnd = Some (r, s')"
  shows "valid_state e s'"
proof (cases "get_wrapped_action (options e) a")
  case (Inl err)
  with t have "s' = s" by (simp add: take_action_def)
  with v show ?thesis by simp
next
  case (Inr acts)
  let ?g = "get_intended_pos e acts s rnd"
  let ?s1 = "fst (snd ?g)"
  have fr: "map pos (agent_list ?s1) = map pos (agent_list s)"
    "map ball (agent_list ?s1) = map ball (agent_list s)"
    using intended_from_frame [of e acts "team_agents (options e)" "[]" s rnd]
    by (simp_all add: get_intended_pos_def)
  have v1: "valid_state e ?s1"
    using v valid_state_cong [OF fr] by simp
  show ?thesis
  proof (cases "fst ?g")
    case (Inl err)
    with Inr t have "s' = ?s1" by (simp add: take_action_def Let_def)
    with v1 show ?thesis by simp
  next
    case ips: (Inr ips)
    from get_intended_pos_result [OF ips] have
      len0: "length ips = get_agent_size (options e)"
      and st0: "\<forall>j<get_agent_size (options e). settled e s j (ips ! j)"
      by blast+
    have sz1: "length (agent_list ?s1) = get_agent_size (options e)"
      using v1 by (simp add: valid_state_def)
    have len: "length ips = length (agent_list ?s1)" using len0 sz1 by simp
    have same: "get_agent_pos ?s1 j = get_agent_pos s j" if "j < get_agent_size (options e)" for j
    proof -
      have "map pos (agent_list ?s1) ! j = map pos (agent_list s) ! j" using fr(1) by simp
      moreover have "length (agent_list s) = get_agent_size (options e)"
        using v by (simp add: valid_state_def)
      ultimately show ?thesis using that sz1 by (simp add: get_agent_pos_def)
    qed
    have st: "\<forall>j<length ips. settled e ?s1 j (ips ! j)"
      using st0 len0 same by (simp add: settled_def)
    from t Inr ips obtain u where u: "update_agent_pos n e ips ?s1 (snd (snd ?g)) = Some u"
      by (auto simp: take_action_def Let_def split: option.splits)
    from update_agent_pos_valid [OF v1 len st u] have
      ok: "fst u = Inr ()" and v2: "valid_state e (fst (snd u))" by blast+
    from t Inr ips u ok have "s' = increase_time_step (fst (snd u))"
      by (auto simp: take_action_def Let_def)
    with v2 show ?thesis by (simp add: valid_state_increase_time_step)
  qed
qed

lemma get_agent_ball_set_agent_pos: "get_agent_ball (set_agent_pos s i p) = get_agent_ball s"
proof
  fix j
  show "get_agent_ball (set_agent_pos s i p) j = get_agent_ball s j"
    by (cases "i < length (agent_list s)")
      (auto simp: get_agent_ball_def set_agent_pos_def nth_list_update list_update_beyond)
qed

lemma get_agent_ball_set_agent_mode: "get_agent_ball (set_agent_mode s i m) = get_agent_ball s"
proof
  fix j
  show "get_agent_ball (set_agent_mode s i m) j = get_agent_ball s j"
    by (cases "i < length (agent_list s)")
      (auto simp: get_agent_ball_def set_agent_mode_def nth_list_update list_update_beyond)
qed

lemma get_agent_pos_set_agent_mode: "get_agent_pos (set_agent_mode s i m) = get_agent_pos s"
proof
  fix j
  show "get_agent_pos (set_agent_mode s i m) j = get_agent_pos s j"
    by (cases "i < length (agent_list s)")
      (auto simp: get_agent_pos_def set_agent_mode_def nth_list_update list_update_beyond)
qed

lemma get_agent_ball_set_agent_action: "get_agent_ball (set_agent_action s i a) = get_agent_ball s"
proof
  fix j
  show "get_agent_ball (set_agent_action s i a) j = get_agent_ball s j"
    by (cases "i < length (agent_list s)")
      (auto simp: get_agent_ball_def set_agent_action_def nth_list_update list_update_beyond)
qed

lemma length_set_agent_mode: "length (agent_list (set_agent_mode s i m)) = length (agent_list s)"
  by (simp add: set_agent_mode_def)

lemma length_set_agent_action: "length (agent_list (set_agent_action s i a)) = length (agent_list s)"
  by (simp add: set_agent_action_def)

lemma get_pos_status_None:
  "(get_pos_status opts s p = None) = (\<forall>i<get_agent_size opts. get_agent_pos s i \<noteq> p)"
proof -
  have "(get_pos_status opts s p = None) =
      (\<forall>i<length (team_agents opts).
         p \<noteq> get_agent_pos s (get_agent_index opts (fst (team_agents opts ! i)) (snd (team_agents opts ! i))))"
    unfolding get_pos_status_def by (simp add: find_None_nth)
  also have "\<dots> = (\<forall>i<get_agent_size opts. get_agent_pos s i \<noteq> p)"
    by (auto simp: length_team_agents index_team_agents_nth)
  finally show ?thesis .
qed

lemma find_pos_result:
  assumes "find_pos n e tn i s rnd = Some (Inr x, s', rnd')"
  shows "\<exists>p. s' = set_agent_pos s i (Some p) \<and> get_pos_status (options e) s (Some p) = None"
  using assms
proof (induction n arbitrary: rnd)
  case 0
  then show ?case by simp
next
  case (Suc n)
  show ?case
  proof (cases "spawn (map_data e) tn = []")
    case True
    with Suc.prems show ?thesis by (simp add: random_choice_def)
  next
    case False
    let ?p = "spawn (map_data e) tn ! (shd rnd mod length (spawn (map_data e) tn))"
    show ?thesis
    proof (cases "get_pos_status (options e) s (Some ?p) = None")
      case True
      with False Suc.prems have "s' = set_agent_pos s i (Some ?p)"
        by (simp add: random_choice_def)
      with True show ?thesis by blast
    next
      case occupied: False
      with False Suc.prems have "find_pos n e tn i s (stl rnd) = Some (Inr x, s', rnd')"
        by (simp add: random_choice_def)
      then show ?thesis by (rule Suc.IH)
    qed
  qed
qed

lemma team_agents_nth_eq:
  assumes "m < get_agent_size opts" "k < team_size opts"
  shows "(team_agents opts ! m = (tn, k)) = (m = get_agent_index opts tn k)"
  using assms
  by (cases tn)
    (auto simp: team_agents_nth get_team_name_def get_agent_index_def group_index_def
      get_agent_size_def)

lemma placed_step:
  assumes pl: "placed n b m s" and m: "m < n"
    and st: "get_pos_status opts s (Some p) = None" and n: "n = get_agent_size opts"
  shows "placed n b (Suc m)
           (set_agent_action
              (set_agent_mode (set_agent_ball (set_agent_pos s m (Some p)) m (m = b)) m md)
              m a)"
proof -
  let ?s1 = "set_agent_pos s m (Some p)"
  let ?s2 = "set_agent_ball ?s1 m (m = b)"
  let ?s4 = "set_agent_action (set_agent_mode ?s2 m md) m a"
  have len: "length (agent_list s) = n" using pl by (simp add: placed_def)
  have fresh: "\<forall>i<n. get_agent_pos s i \<noteq> Some p"
    using st n by (simp add: get_pos_status_None)
  have l4: "length (agent_list ?s4) = n"
    using len by (simp add: length_set_agent_action length_set_agent_mode length_set_agent_ball
        length_set_agent_pos)
  have p4: "get_agent_pos ?s4 k = (if k = m then Some p else get_agent_pos s k)" for k
    using len m
    by (simp add: get_agent_pos_set_agent_action get_agent_pos_set_agent_mode
        get_agent_pos_set_agent_ball get_agent_pos_set_agent_pos)
  have b4: "get_agent_ball ?s4 k = (if k = m then m = b else get_agent_ball s k)" for k
    using len m
    by (simp add: get_agent_ball_set_agent_action get_agent_ball_set_agent_mode
        get_agent_ball_set_agent_ball get_agent_ball_set_agent_pos length_set_agent_pos)
  have 1: "\<forall>k<Suc m. get_agent_pos ?s4 k \<noteq> None"
    using pl by (simp add: p4 placed_def less_Suc_eq)
  have 2: "\<forall>j<Suc m. \<forall>k<Suc m. j \<noteq> k \<longrightarrow> get_agent_pos ?s4 j \<noteq> get_agent_pos ?s4 k"
  proof (intro allI impI)
    fix j k
    assume jk: "j < Suc m" "k < Suc m" "j \<noteq> k"
    have old: "\<forall>j<m. \<forall>k<m. j \<noteq> k \<longrightarrow> get_agent_pos s j \<noteq> get_agent_pos s k"
      using pl by (simp add: placed_def)
    show "get_agent_pos ?s4 j \<noteq> get_agent_pos ?s4 k"
    proof (cases "j = m")
      case True
      with jk have "k < m" by simp
      then have "get_agent_pos s k \<noteq> Some p" using fresh m by simp
      with True jk show ?thesis by (auto simp: p4)
    next
      case False
      then have j: "j < m" using jk by simp
      show ?thesis
      proof (cases "k = m")
        case True
        have "get_agent_pos s j \<noteq> Some p" using fresh m j by simp
        with True False show ?thesis by (simp add: p4)
      next
        case False
        then have "k < m" using jk by simp
        with j jk old \<open>j \<noteq> m\<close> False show ?thesis by (simp add: p4)
      qed
    qed
  qed
  have 3: "\<forall>k<n. get_agent_ball ?s4 k = (k < Suc m \<and> k = b)"
    using pl by (auto simp: b4 placed_def)
  from l4 1 2 3 show ?thesis by (simp add: placed_def)
qed

lemma randomize_from_Cons:
  assumes "randomize_from fuel e hb (tk # rest) s rnd = Some (Inr x, s', rnd')"
  shows "\<exists>p md rnd1.
           get_pos_status (options e) s (Some p) = None \<and>
           randomize_from fuel e hb rest
             (set_agent_action
                (set_agent_mode
                   (set_agent_ball
                      (set_agent_pos s (get_agent_index (options e) (fst tk) (snd tk)) (Some p))
                      (get_agent_index (options e) (fst tk) (snd tk))
                      (fst tk = fst hb \<and> snd tk = snd hb))
                   (get_agent_index (options e) (fst tk) (snd tk)) md)
                (get_agent_index (options e) (fst tk) (snd tk)) (Some (last actions)))
             rnd1
           = Some (Inr x, s', rnd')"
proof -
  let ?i = "get_agent_index (options e) (fst tk) (snd tk)"
  from assms obtain f where f: "find_pos fuel e (fst tk) ?i s rnd = Some f"
    by (cases "find_pos fuel e (fst tk) ?i s rnd") (auto simp: Let_def)
  from assms f obtain u where u: "fst f = Inr u"
    by (cases "fst f") (auto simp: Let_def)
  have "find_pos fuel e (fst tk) ?i s rnd = Some (Inr u, fst (snd f), snd (snd f))"
    using f u by (simp add: prod_eq_iff)
  from find_pos_result [OF this] obtain p where
    p: "fst (snd f) = set_agent_pos s ?i (Some p)" "get_pos_status (options e) s (Some p) = None"
    by blast
  let ?s1 = "set_agent_ball (set_agent_pos s ?i (Some p)) ?i (fst tk = fst hb \<and> snd tk = snd hb)"
  show ?thesis
  proof (cases "fst tk = COMPUTER")
    case True
    let ?m = "random_choice modes (snd (snd f))"
    from assms f u p True obtain md where md: "fst ?m = Inr md"
      by (cases "fst ?m") (auto simp: Let_def)
    from assms f u p True md have
      "randomize_from fuel e hb rest
         (set_agent_action (set_agent_mode ?s1 ?i (Some md)) ?i (Some (last actions))) (snd ?m)
       = Some (Inr x, s', rnd')"
      by (simp add: Let_def)
    with p(2) show ?thesis by blast
  next
    case False
    from assms f u p False have
      "randomize_from fuel e hb rest
         (set_agent_action (set_agent_mode ?s1 ?i None) ?i (Some (last actions))) (snd (snd f))
       = Some (Inr x, s', rnd')"
      by (simp add: Let_def)
    with p(2) show ?thesis by blast
  qed
qed

lemma randomize_from_placed:
  assumes n: "n = get_agent_size (options e)"
    and k: "snd hb < team_size (options e)"
    and b: "b = get_agent_index (options e) (fst hb) (snd hb)"
    and m: "m \<le> n" and pl: "placed n b m s"
    and r: "randomize_from fuel e hb (drop m (team_agents (options e))) s rnd
              = Some (Inr x, s', rnd')"
  shows "placed n b n s'"
  using m pl r
proof (induction "n - m" arbitrary: m s rnd)
  case 0
  then have "m = n" by simp
  with 0 show ?case by (simp add: n length_team_agents)
next
  case (Suc d)
  then have lt: "m < n" by simp
  let ?ta = "team_agents (options e)"
  let ?tk = "?ta ! m"
  have dr: "drop m ?ta = ?tk # drop (Suc m) ?ta"
    using lt n by (simp add: Cons_nth_drop_Suc length_team_agents)
  have idx: "get_agent_index (options e) (fst ?tk) (snd ?tk) = m"
    using lt n by (simp add: index_team_agents_nth)
  have sb: "(fst ?tk = fst hb \<and> snd ?tk = snd hb) = (m = b)"
    using team_agents_nth_eq [of m "options e" "snd hb" "fst hb"] lt n k b
    by (auto simp: prod_eq_iff)
  from Suc.prems(3) have "randomize_from fuel e hb (?tk # drop (Suc m) ?ta) s rnd
      = Some (Inr x, s', rnd')"
    by (simp only: dr)
  from randomize_from_Cons [OF this] obtain p md rnd1 where
    st: "get_pos_status (options e) s (Some p) = None"
    and rec: "randomize_from fuel e hb (drop (Suc m) ?ta)
             (set_agent_action
                (set_agent_mode (set_agent_ball (set_agent_pos s m (Some p)) m (m = b)) m md)
                m (Some (last actions)))
             rnd1 = Some (Inr x, s', rnd')"
    unfolding idx sb by blast
  have pl': "placed n b (Suc m)
      (set_agent_action
         (set_agent_mode (set_agent_ball (set_agent_pos s m (Some p)) m (m = b)) m md)
         m (Some (last actions)))"
    using Suc.prems(2) lt st n by (rule placed_step)
  have "d = n - Suc m" using Suc.hyps(2) by simp
  moreover have "Suc m \<le> n" using lt by simp
  ultimately show ?case using pl' rec by (rule Suc.hyps(1))
qed

lemma placed_valid:
  assumes "placed n b n s" "b < n" "n = get_agent_size (options e)"
  shows "valid_state e s"
proof -
  have len: "length (agent_list s) = n"
    and some: "\<forall>k<n. get_agent_pos s k \<noteq> None"
    and ne: "\<forall>j<n. \<forall>k<n. j \<noteq> k \<longrightarrow> get_agent_pos s j \<noteq> get_agent_pos s k"
    and bl: "\<forall>k<n. get_agent_ball s k = (k = b)"
    using assms(1) by (auto simp: placed_def)
  have "distinct (map pos (agent_list s))"
    using ne len by (auto simp: distinct_conv_nth get_agent_pos_def)
  moreover have "ball_count s = 1"
  proof -
    have "{i. i < length (agent_list s) \<and> get_agent_ball s i} = {b}"
      using bl len assms(2) by auto
    then show ?thesis by (simp add: ball_count_card)
  qed
  ultimately show ?thesis
    using len some assms(3) by (simp add: valid_state_def)
qed

lemma reset_valid:
  assumes "reset fuel e s rnd = Some (Inr ob, s')"
  shows "valid_state e s'"
proof -
  let ?n = "get_agent_size (options e)"
  let ?s0 = "s\<lparr>agent_list := replicate ?n cleared_agent\<rparr>"
  from assms obtain r where r: "randomize fuel e ?s0 rnd = Some r" and ok: "fst r = Inr ()"
    and s': "s' = (fst (snd r))\<lparr>time_step := 0\<rparr>"
    by (auto simp: reset_def Let_def split: option.splits sum.splits)
  have req: "r = (Inr (), fst (snd r), snd (snd r))" using ok by (simp add: prod_eq_iff)
  have ts: "team_size (options e) \<noteq> 0"
  proof
    assume "team_size (options e) = 0"
    with r have "r = (Inl ValueError, ?s0, stl rnd)"
      by (simp add: randomize_def random_choice_def random_randrange_def team_names_def)
    with ok show False by simp
  qed
  let ?hb = "(team_names ! (shd rnd mod length team_names),
              shd (stl rnd) mod team_size (options e))"
  have rf: "randomize_from fuel e ?hb (drop 0 (team_agents (options e))) ?s0 (stl (stl rnd))
      = Some (Inr (), fst (snd r), snd (snd r))"
    using r req ts
    by (simp add: randomize_def random_choice_def random_randrange_def team_names_def)
  let ?b = "get_agent_index (options e) (fst ?hb) (snd ?hb)"
  have k: "snd ?hb < team_size (options e)" using ts by simp
  have p0: "placed ?n ?b 0 ?s0"
    by (simp add: placed_def cleared_agent_def get_agent_ball_def)
  have "placed ?n ?b ?n (fst (snd r))"
    using refl k refl _ p0 rf by (rule randomize_from_placed) simp
  moreover have "?b < ?n"
    using k by (cases "fst ?hb") (simp_all add: get_agent_index_def group_index_def get_agent_size_def)
  ultimately have "valid_state e (fst (snd r))"
    by (rule placed_valid) simp
  moreover have "valid_state e s' = valid_state e (fst (snd r))"
    by (rule valid_state_cong) (simp_all add: s')
  ultimately show ?thesis by simp
qed

lemma reachable_valid: "reachable e s \<Longrightarrow> valid_state e s"
proof (induction rule: reachable.induct)
  case (after_reset n s0 rnd ob s)
  then show ?case by (rule reset_valid)
next
  case (after_take_action s n a rnd r s')
  then show ?case using take_action_valid by blast
qed

subsection \<open>The effect of overlap resolution\<close>














end
